theory Spec2Isabelle
  imports Main "HOL-Library.AList"
begin

section \<open>Raw payloads\<close>

text \<open>
  What the Slack client hands to \<^verbatim>\<open>slack.py\<close> is parsed JSON: \<^verbatim>\<open>None\<close>, booleans,
  integers, strings, lists and dicts. A dict is an association list read with \<open>map_of\<close>
  (the first binding of a key is the binding) and written with \<open>AList.update\<close>.
  Fractional numbers are not part of the model.
\<close>

datatype json =
    JNull
  | JBool bool
  | JInt int
  | JStr string
  | JList "json list"
  | JObj "(string \<times> json) list"

type_synonym dict = "(string \<times> json) list"

text \<open>Python's truth value of a payload, as \<^verbatim>\<open>not subt\<close> tests it.\<close>

fun truthy :: "json \<Rightarrow> bool" where
  "truthy JNull = False"
| "truthy (JBool b) = b"
| "truthy (JInt i) = (i \<noteq> 0)"
| "truthy (JStr s) = (s \<noteq> [])"
| "truthy (JList xs) = (xs \<noteq> [])"
| "truthy (JObj kvs) = (kvs \<noteq> [])"

text \<open>Lists and dicts cannot be hashed, so they cannot be looked up in a Python set.\<close>

fun hashable :: "json \<Rightarrow> bool" where
  "hashable (JList xs) = False"
| "hashable (JObj kvs) = False"
| "hashable j = True"

section \<open>Domain model\<close>

record response =
  ok :: bool
  headers :: "(string \<times> string) list"

record topic =
  topic_value :: string

record channel =
  channel_id :: string
  name_normalized :: string
  purpose :: topic
  topic :: topic
  members :: "string set"

record message =
  channel :: string
  user :: string
  "text" :: string

record user_typing =
  typing_channel :: string
  typing_user :: string

record file_deleted =
  file_id :: string
  channel_ids :: "string list"

record profile =
  real_name :: string
  email :: "string option"
  status_text :: string

record user =
  user_id :: string
  name :: string
  profile :: profile
  is_admin :: bool

text \<open>
  \<^verbatim>\<open>SlackEvent\<close>. \<^verbatim>\<open>MessageDelete\<close> is a subclass of \<^verbatim>\<open>Message\<close> with the same
  fields; the class of the object is the constructor here.
\<close>

datatype slack_event =
    EvUserTyping user_typing
  | EvMessageDelete message
  | EvMessageEdit message message
  | EvMessage message
  | EvFileDeleted file_deleted

definition channel_name :: "channel \<Rightarrow> string" where
  "channel_name c = name_normalized c"

definition real_topic :: "channel \<Rightarrow> string" where
  "real_topic c = (if topic_value (topic c) \<noteq> [] then topic_value (topic c)
                   else topic_value (purpose c))"

definition user_real_name :: "user \<Rightarrow> string" where
  "user_real_name u = real_name (profile u)"

section \<open>Exceptions\<close>

datatype key_error = NoArgs | OfResponse response | OfKey string

datatype exn =
    ResponseException response
  | KeyError key_error
  | TypeError
  | SchemaError
  | BrokenPipeError
  | TimeoutError
  | OtherError string

definition getitem :: "dict \<Rightarrow> string \<Rightarrow> exn + json" where
  "getitem d k = (case map_of d k of None \<Rightarrow> Inl (KeyError (OfKey k)) | Some v \<Rightarrow> Inr v)"

definition dict_get :: "dict \<Rightarrow> string \<Rightarrow> json" where
  "dict_get d k = (case map_of d k of None \<Rightarrow> JNull | Some v \<Rightarrow> v)"

section \<open>Decoding\<close>

text \<open>
  Modelled from the spec: \<^verbatim>\<open>load\<close> comes from the typedload library, which is not part of
  the repository. The spec gives its contract as \<^verbatim>\<open>decode(raw, TargetShape)\<close>, failing
  with SchemaError when the payload does not structurally match the shape. The shapes are
  the NamedTuple declarations of \<^verbatim>\<open>slack.py\<close>: a field without a default must be
  present, a field with a default takes it when absent, keys that are not fields are
  ignored, and a field holds a value of its declared type.
\<close>

definition load_str :: "json \<Rightarrow> exn + string" where
  "load_str j = (case j of JStr s \<Rightarrow> Inr s | _ \<Rightarrow> Inl SchemaError)"

definition load_bool :: "json \<Rightarrow> exn + bool" where
  "load_bool j = (case j of JBool b \<Rightarrow> Inr b | _ \<Rightarrow> Inl SchemaError)"

definition load_opt_str :: "json \<Rightarrow> exn + string option" where
  "load_opt_str j = (case j of JNull \<Rightarrow> Inr None | JStr s \<Rightarrow> Inr (Some s) | _ \<Rightarrow> Inl SchemaError)"

fun load_list :: "(json \<Rightarrow> exn + 'a) \<Rightarrow> json list \<Rightarrow> exn + 'a list" where
  "load_list f [] = Inr []"
| "load_list f (j # js) =
     (case f j of Inl e \<Rightarrow> Inl e
      | Inr x \<Rightarrow> (case load_list f js of Inl e \<Rightarrow> Inl e | Inr xs \<Rightarrow> Inr (x # xs)))"

definition load_List :: "(json \<Rightarrow> exn + 'a) \<Rightarrow> json \<Rightarrow> exn + 'a list" where
  "load_List f j = (case j of JList js \<Rightarrow> load_list f js | _ \<Rightarrow> Inl SchemaError)"

definition load_Set :: "(json \<Rightarrow> exn + 'a) \<Rightarrow> json \<Rightarrow> exn + 'a set" where
  "load_Set f j = (case load_List f j of Inl e \<Rightarrow> Inl e | Inr xs \<Rightarrow> Inr (set xs))"

fun load_str_dict :: "dict \<Rightarrow> exn + (string \<times> string) list" where
  "load_str_dict [] = Inr []"
| "load_str_dict ((k, j) # kvs) =
     (case load_str j of Inl e \<Rightarrow> Inl e
      | Inr v \<Rightarrow> (case load_str_dict kvs of Inl e \<Rightarrow> Inl e | Inr d \<Rightarrow> Inr ((k, v) # d)))"

definition load_headers :: "json \<Rightarrow> exn + (string \<times> string) list" where
  "load_headers j = (case j of JObj kvs \<Rightarrow> load_str_dict kvs | _ \<Rightarrow> Inl SchemaError)"

text \<open>A required field and a field with a default.\<close>

definition field :: "dict \<Rightarrow> string \<Rightarrow> (json \<Rightarrow> exn + 'a) \<Rightarrow> exn + 'a" where
  "field d k f = (case map_of d k of None \<Rightarrow> Inl SchemaError | Some j \<Rightarrow> f j)"

definition field_default :: "dict \<Rightarrow> string \<Rightarrow> 'a \<Rightarrow> (json \<Rightarrow> exn + 'a) \<Rightarrow> exn + 'a" where
  "field_default d k dflt f = (case map_of d k of None \<Rightarrow> Inr dflt | Some j \<Rightarrow> f j)"

definition load_Response :: "json \<Rightarrow> exn + response" where
  "load_Response j =
     (case j of
        JObj d \<Rightarrow>
          (case field d ''ok'' load_bool of Inl e \<Rightarrow> Inl e
           | Inr b \<Rightarrow>
          (case field d ''headers'' load_headers of
             Inl e \<Rightarrow> Inl e
           | Inr h \<Rightarrow> Inr \<lparr>ok = b, headers = h\<rparr>))
      | _ \<Rightarrow> Inl SchemaError)"

definition load_Topic :: "json \<Rightarrow> exn + topic" where
  "load_Topic j =
     (case j of
        JObj d \<Rightarrow>
          (case field d ''value'' load_str of Inl e \<Rightarrow> Inl e
           | Inr v \<Rightarrow> Inr \<lparr>topic_value = v\<rparr>)
      | _ \<Rightarrow> Inl SchemaError)"

definition load_Channel :: "json \<Rightarrow> exn + channel" where
  "load_Channel j =
     (case j of
        JObj d \<Rightarrow>
          (case field d ''id'' load_str of Inl e \<Rightarrow> Inl e
           | Inr i \<Rightarrow>
          (case field d ''name_normalized'' load_str of Inl e \<Rightarrow> Inl e
           | Inr n \<Rightarrow>
          (case field d ''purpose'' load_Topic of Inl e \<Rightarrow> Inl e
           | Inr p \<Rightarrow>
          (case field d ''topic'' load_Topic of Inl e \<Rightarrow> Inl e
           | Inr t \<Rightarrow>
          (case field d ''members'' (load_Set load_str) of Inl e \<Rightarrow> Inl e
           | Inr m \<Rightarrow>
             Inr \<lparr>channel_id = i, name_normalized = n, purpose = p, topic = t,
                  members = m\<rparr>)))))
      | _ \<Rightarrow> Inl SchemaError)"

definition load_Message :: "json \<Rightarrow> exn + message" where
  "load_Message j =
     (case j of
        JObj d \<Rightarrow>
          (case field d ''channel'' load_str of Inl e \<Rightarrow> Inl e
           | Inr c \<Rightarrow>
          (case field d ''user'' load_str of Inl e \<Rightarrow> Inl e
           | Inr u \<Rightarrow>
          (case field d ''text'' load_str of Inl e \<Rightarrow> Inl e
           | Inr t \<Rightarrow> Inr \<lparr>channel = c, user = u, text = t\<rparr>)))
      | _ \<Rightarrow> Inl SchemaError)"

text \<open>
  The target \<^verbatim>\<open>MessageDelete\<close> is a subclass of \<^verbatim>\<open>Message\<close> that declares no field of its
  own (\<^verbatim>\<open>class MessageDelete(Message): pass\<close>). The loader takes the fields of a
  NamedTuple from the annotations of the class it is given, and a subclass without
  annotations has none (Python 3.10 and later give such a class an empty
  \<^verbatim>\<open>__annotations__\<close>): every key of the payload is skipped as not being a field, and
  \<^verbatim>\<open>MessageDelete()\<close> is called with no argument, which raises TypeError for want of
  \<^verbatim>\<open>channel\<close>, \<^verbatim>\<open>user\<close> and \<^verbatim>\<open>text\<close>. (An interpreter that lets the subclass see the
  annotations of \<^verbatim>\<open>Message\<close> would decode as for \<^verbatim>\<open>Message\<close>.)
\<close>

definition load_MessageDelete :: "json \<Rightarrow> exn + message" where
  "load_MessageDelete j = (case j of JObj d \<Rightarrow> Inl TypeError | _ \<Rightarrow> Inl SchemaError)"

definition load_UserTyping :: "json \<Rightarrow> exn + user_typing" where
  "load_UserTyping j =
     (case j of
        JObj d \<Rightarrow>
          (case field d ''channel'' load_str of Inl e \<Rightarrow> Inl e
           | Inr c \<Rightarrow>
          (case field d ''user'' load_str of Inl e \<Rightarrow> Inl e
           | Inr u \<Rightarrow> Inr \<lparr>typing_channel = c, typing_user = u\<rparr>))
      | _ \<Rightarrow> Inl SchemaError)"

definition load_FileDeleted :: "json \<Rightarrow> exn + file_deleted" where
  "load_FileDeleted j =
     (case j of
        JObj d \<Rightarrow>
          (case field d ''file_id'' load_str of Inl e \<Rightarrow> Inl e
           | Inr f \<Rightarrow>
          (case field_default d ''channel_ids'' [] (load_List load_str) of Inl e \<Rightarrow> Inl e
           | Inr cs \<Rightarrow> Inr \<lparr>file_id = f, channel_ids = cs\<rparr>))
      | _ \<Rightarrow> Inl SchemaError)"

definition load_Profile :: "json \<Rightarrow> exn + profile" where
  "load_Profile j =
     (case j of
        JObj d \<Rightarrow>
          (case field_default d ''real_name'' ''noname'' load_str of Inl e \<Rightarrow> Inl e
           | Inr r \<Rightarrow>
          (case field_default d ''email'' None load_opt_str of Inl e \<Rightarrow> Inl e
           | Inr m \<Rightarrow>
          (case field_default d ''status_text'' [] load_str of Inl e \<Rightarrow> Inl e
           | Inr st \<Rightarrow> Inr \<lparr>real_name = r, email = m, status_text = st\<rparr>)))
      | _ \<Rightarrow> Inl SchemaError)"

definition load_User :: "json \<Rightarrow> exn + user" where
  "load_User j =
     (case j of
        JObj d \<Rightarrow>
          (case field d ''id'' load_str of Inl e \<Rightarrow> Inl e
           | Inr i \<Rightarrow>
          (case field d ''name'' load_str of Inl e \<Rightarrow> Inl e
           | Inr n \<Rightarrow>
          (case field d ''profile'' load_Profile of Inl e \<Rightarrow> Inl e
           | Inr p \<Rightarrow>
          (case field_default d ''is_admin'' False load_bool of Inl e \<Rightarrow> Inl e
           | Inr a \<Rightarrow> Inr \<lparr>user_id = i, name = n, profile = p, is_admin = a\<rparr>))))
      | _ \<Rightarrow> Inl SchemaError)"

section \<open>The Slack client\<close>

text \<open>
  Modelled from the spec: \<^verbatim>\<open>SlackClient\<close> comes from the slackclient library, which is
  not part of the repository. The spec gives its contract: \<^verbatim>\<open>connect(flags) -> bool\<close>
  (false means the handshake failed), \<^verbatim>\<open>read()\<close> returns a sequence of raw envelopes
  or raises a transport failure, and \<^verbatim>\<open>call(method, **parameters)\<close> returns a raw
  response. The state of the client is the list of calls made on it so far, and what it
  answers is a function of that list: any client, whatever its internal state, is one
  such function.
\<close>

datatype call = ApiCall string dict | RtmConnect bool | RtmRead

datatype read_result = Events "dict list" | ReadRaises exn

record transport =
  api_call :: "call list \<Rightarrow> string \<Rightarrow> dict \<Rightarrow> json"
  rtm_connect :: "call list \<Rightarrow> bool \<Rightarrow> bool"
  rtm_read :: "call list \<Rightarrow> read_result"

section \<open>The Slack object\<close>

text \<open>
  One \<^verbatim>\<open>Slack\<close> instance: its client, its \<^verbatim>\<open>_usercache\<close>, the three caches that the
  \<^verbatim>\<open>lru_cache\<close> decorators keep for its methods, and what it has printed. The key of
  \<^verbatim>\<open>channels\<close> in its cache is the instance alone, so for one instance that cache
  holds at most one entry.
\<close>

record slack =
  client :: "call list"
  usercache :: "string \<rightharpoonup> user"
  channels_memo :: "channel list option"
  get_channel_memo :: "(string \<times> channel) list"
  get_channel_by_name_memo :: "(string \<times> channel) list"
  printed :: "dict list"

definition init :: slack where
  "init = \<lparr>client = [], usercache = Map.empty, channels_memo = None,
           get_channel_memo = [], get_channel_by_name_memo = [], printed = []\<rparr>"

definition call_api :: "transport \<Rightarrow> slack \<Rightarrow> string \<Rightarrow> dict \<Rightarrow> json \<times> slack" where
  "call_api t s m kw = (api_call t (client s) m kw, s\<lparr>client := client s @ [ApiCall m kw]\<rparr>)"

text \<open>\<^verbatim>\<open>r[k]\<close> on a raw response.\<close>

definition subscript :: "json \<Rightarrow> string \<Rightarrow> exn + json" where
  "subscript r k = (case r of JObj d \<Rightarrow> getitem d k | _ \<Rightarrow> Inl TypeError)"

definition load_item :: "json \<Rightarrow> string \<Rightarrow> (json \<Rightarrow> exn + 'a) \<Rightarrow> exn + 'a" where
  "load_item r k f = (case subscript r k of Inl e \<Rightarrow> Inl e | Inr j \<Rightarrow> f j)"

subsection \<open>lru\_cache\<close>

text \<open>
  \<^verbatim>\<open>lru_cache()\<close> keeps the 128 most recently used results, most recent first here.
  A call that raises stores nothing.
\<close>

definition lru_maxsize :: nat where
  "lru_maxsize = 128"

definition lru_hit :: "('k \<times> 'v) list \<Rightarrow> 'k \<Rightarrow> 'v \<Rightarrow> ('k \<times> 'v) list" where
  "lru_hit c k v = (k, v) # AList.delete k c"

definition lru_store :: "('k \<times> 'v) list \<Rightarrow> 'k \<Rightarrow> 'v \<Rightarrow> ('k \<times> 'v) list" where
  "lru_store c k v = take lru_maxsize ((k, v) # c)"

subsection \<open>channels\<close>

definition exclude_archived :: dict where
  "exclude_archived = [(''exclude_archived'', JInt 1)]"

text \<open>One of the two fetches of \<^verbatim>\<open>channels\<close>: the call, the check of \<^verbatim>\<open>ok\<close>, the decoding.\<close>

definition fetch_list :: "transport \<Rightarrow> slack \<Rightarrow> string \<Rightarrow> string \<Rightarrow> (exn + channel list) \<times> slack" where
  "fetch_list t s m k =
     (case call_api t s m exclude_archived of
        (r, s1) \<Rightarrow>
          (case load_Response r of
             Inl e \<Rightarrow> (Inl e, s1)
           | Inr resp \<Rightarrow>
               if ok resp then (load_item r k (load_List load_Channel), s1)
               else (Inl (ResponseException resp), s1)))"

text \<open>The body of \<^verbatim>\<open>channels\<close>, without the decorator.\<close>

definition channels_body :: "transport \<Rightarrow> slack \<Rightarrow> (exn + channel list) \<times> slack" where
  "channels_body t s =
     (case fetch_list t s ''channels.list'' ''channels'' of
        (Inl e, s1) \<Rightarrow> (Inl e, s1)
      | (Inr cs, s1) \<Rightarrow>
          (case fetch_list t s1 ''groups.list'' ''groups'' of
             (Inl e, s2) \<Rightarrow> (Inl e, s2)
           | (Inr gs, s2) \<Rightarrow> (Inr (cs @ gs), s2)))"

definition channels :: "transport \<Rightarrow> slack \<Rightarrow> (exn + channel list) \<times> slack" where
  "channels t s =
     (case channels_memo s of
        Some cs \<Rightarrow> (Inr cs, s)
      | None \<Rightarrow>
          (case channels_body t s of
             (Inl e, s1) \<Rightarrow> (Inl e, s1)
           | (Inr cs, s1) \<Rightarrow> (Inr cs, s1\<lparr>channels_memo := Some cs\<rparr>)))"

subsection \<open>get\_channel, get\_channel\_by\_name\<close>

definition get_channel :: "transport \<Rightarrow> slack \<Rightarrow> string \<Rightarrow> (exn + channel) \<times> slack" where
  "get_channel t s i =
     (case map_of (get_channel_memo s) i of
        Some c \<Rightarrow> (Inr c, s\<lparr>get_channel_memo := lru_hit (get_channel_memo s) i c\<rparr>)
      | None \<Rightarrow>
          (case channels t s of
             (Inl e, s1) \<Rightarrow> (Inl e, s1)
           | (Inr cs, s1) \<Rightarrow>
               (case find (\<lambda>c. channel_id c = i) cs of
                  Some c \<Rightarrow> (Inr c, s1\<lparr>get_channel_memo := lru_store (get_channel_memo s1) i c\<rparr>)
                | None \<Rightarrow> (Inl (KeyError NoArgs), s1))))"

definition get_channel_by_name :: "transport \<Rightarrow> slack \<Rightarrow> string \<Rightarrow> (exn + channel) \<times> slack" where
  "get_channel_by_name t s n =
     (case map_of (get_channel_by_name_memo s) n of
        Some c \<Rightarrow>
          (Inr c, s\<lparr>get_channel_by_name_memo := lru_hit (get_channel_by_name_memo s) n c\<rparr>)
      | None \<Rightarrow>
          (case channels t s of
             (Inl e, s1) \<Rightarrow> (Inl e, s1)
           | (Inr cs, s1) \<Rightarrow>
               (case find (\<lambda>c. channel_name c = n) cs of
                  Some c \<Rightarrow>
                    (Inr c, s1\<lparr>get_channel_by_name_memo :=
                                  lru_store (get_channel_by_name_memo s1) n c\<rparr>)
                | None \<Rightarrow> (Inl (KeyError NoArgs), s1))))"

subsection \<open>get\_user, send\_message\<close>

definition get_user :: "transport \<Rightarrow> slack \<Rightarrow> string \<Rightarrow> (exn + user) \<times> slack" where
  "get_user t s i =
     (case usercache s i of
        Some u \<Rightarrow> (Inr u, s)
      | None \<Rightarrow>
          (case call_api t s ''users.info'' [(''user'', JStr i)] of
             (r, s1) \<Rightarrow>
               (case load_Response r of
                  Inl e \<Rightarrow> (Inl e, s1)
                | Inr resp \<Rightarrow>
                    if ok resp then
                      (case load_item r ''user'' load_User of
                         Inl e \<Rightarrow> (Inl e, s1)
                       | Inr u \<Rightarrow> (Inr u, s1\<lparr>usercache := (usercache s1)(i \<mapsto> u)\<rparr>))
                    else (Inl (KeyError (OfResponse resp)), s1))))"

definition send_message :: "transport \<Rightarrow> slack \<Rightarrow> string \<Rightarrow> string \<Rightarrow> (exn + unit) \<times> slack" where
  "send_message t s chan msg =
     (case call_api t s ''chat.postMessage''
             [(''channel'', JStr chan), (''text'', JStr msg), (''as_user'', JBool True)] of
        (r, s1) \<Rightarrow>
          (case load_Response r of
             Inl e \<Rightarrow> (Inl e, s1)
           | Inr resp \<Rightarrow>
               if ok resp then (Inr (), s1) else (Inl (ResponseException resp), s1)))"

section \<open>events\_iter\<close>

text \<open>
  \<^verbatim>\<open>event[k]['channel'] = event['channel']\<close>: the right-hand side is read first, then
  \<^verbatim>\<open>event[k]\<close>, which must be a dict to be assigned into.
\<close>

definition inject_channel :: "dict \<Rightarrow> string \<Rightarrow> exn + dict" where
  "inject_channel event k =
     (case getitem event ''channel'' of
        Inl e \<Rightarrow> Inl e
      | Inr c \<Rightarrow>
          (case getitem event k of
             Inl e \<Rightarrow> Inl e
           | Inr (JObj nested) \<Rightarrow>
               Inr (AList.update k (JObj (AList.update ''channel'' c nested)) event)
           | Inr _ \<Rightarrow> Inl TypeError))"

text \<open>The branch of \<^verbatim>\<open>message_changed\<close>: \<^verbatim>\<open>previous\<close> is decoded before \<^verbatim>\<open>current\<close>.\<close>

definition message_changed :: "dict \<Rightarrow> exn + slack_event" where
  "message_changed event =
     (case inject_channel event ''message'' of
        Inl e \<Rightarrow> Inl e
      | Inr event1 \<Rightarrow>
     (case inject_channel event1 ''previous_message'' of
        Inl e \<Rightarrow> Inl e
      | Inr event2 \<Rightarrow>
     (case load_item (JObj event2) ''previous_message'' load_Message of
        Inl e \<Rightarrow> Inl e
      | Inr previous \<Rightarrow>
     (case load_item (JObj event2) ''message'' load_Message of
        Inl e \<Rightarrow> Inl e
      | Inr current \<Rightarrow> Inr (EvMessageEdit previous current)))))"

definition message_deleted :: "dict \<Rightarrow> exn + slack_event" where
  "message_deleted event =
     (case inject_channel event ''previous_message'' of
        Inl e \<Rightarrow> Inl e
      | Inr event1 \<Rightarrow>
     (case load_item (JObj event1) ''previous_message'' load_MessageDelete of
        Inl e \<Rightarrow> Inl e
      | Inr m \<Rightarrow> Inr (EvMessageDelete m)))"

text \<open>The branch of \<^verbatim>\<open>user_change\<close>: the user is dropped from the cache.\<close>

definition user_change :: "slack \<Rightarrow> dict \<Rightarrow> exn + slack" where
  "user_change s event =
     (case load_item (JObj event) ''user'' load_User of
        Inl e \<Rightarrow> Inl e
      | Inr u \<Rightarrow>
          if user_id u \<in> dom (usercache s)
          then Inr (s\<lparr>usercache := (usercache s)(user_id u := None)\<rparr>)
          else Inr s)"

text \<open>What the body of the \<^verbatim>\<open>for\<close> loop does with one envelope.\<close>

datatype outcome = Emit slack_event | NoEmit | Raise exn

definition yield_or_raise :: "slack \<Rightarrow> exn + slack_event \<Rightarrow> outcome \<times> slack" where
  "yield_or_raise s r = (case r of Inl e \<Rightarrow> (Raise e, s) | Inr x \<Rightarrow> (Emit x, s))"

definition useless_events :: "json set" where
  "useless_events = {JStr ''channel_marked'', JStr ''group_marked'', JStr ''hello''}"

definition handle_event :: "slack \<Rightarrow> dict \<Rightarrow> outcome \<times> slack" where
  "handle_event s event =
     (let t = dict_get event ''type''; subt = dict_get event ''subtype'' in
      if t = JStr ''message'' \<and> \<not> truthy subt then
        yield_or_raise s (map_sum id EvMessage (load_Message (JObj event)))
      else if t = JStr ''message'' \<and> subt = JStr ''message_changed'' then
        yield_or_raise s (message_changed event)
      else if t = JStr ''message'' \<and> subt = JStr ''message_deleted'' then
        yield_or_raise s (message_deleted event)
      else if t = JStr ''user_typing'' then
        yield_or_raise s (map_sum id EvUserTyping (load_UserTyping (JObj event)))
      else if t = JStr ''user_change'' then
        (case user_change s event of Inl e \<Rightarrow> (Raise e, s) | Inr s1 \<Rightarrow> (NoEmit, s1))
      else if t = JStr ''file_deleted'' then
        yield_or_raise s (map_sum id EvFileDeleted (load_FileDeleted (JObj event)))
      else if \<not> hashable t then (Raise TypeError, s)
      else if t \<in> useless_events then (NoEmit, s)
      else (NoEmit, s\<lparr>printed := printed s @ [event]\<rparr>))"

text \<open>
  The generator object: not started, suspended at a \<^verbatim>\<open>yield\<close> inside the \<^verbatim>\<open>for\<close> loop
  (with the envelopes the loop has not reached yet), suspended at \<^verbatim>\<open>yield None\<close>, or
  finished (by returning or by raising). One call of \<^verbatim>\<open>next\<close> runs it to the following
  \<^verbatim>\<open>yield\<close>.
\<close>

datatype gen = Created | InFor "dict list" | AtNone | Finished

datatype 'a result = Yielded 'a | StopIteration | Raised exn

type_synonym resumed = "slack_event option result \<times> slack \<times> gen"

fun for_loop :: "slack \<Rightarrow> dict list \<Rightarrow> resumed" where
  "for_loop s [] = (Yielded None, s, AtNone)"
| "for_loop s (event # events) =
     (case handle_event s event of
        (Emit x, s1) \<Rightarrow> (Yielded (Some x), s1, InFor events)
      | (NoEmit, s1) \<Rightarrow> for_loop s1 events
      | (Raise e, s1) \<Rightarrow> (Raised e, s1, Finished))"

definition connect :: "transport \<Rightarrow> slack \<Rightarrow> bool \<times> slack" where
  "connect t s =
     (rtm_connect t (client s) False, s\<lparr>client := client s @ [RtmConnect False]\<rparr>)"

text \<open>The body of \<^verbatim>\<open>while True\<close>, from the \<^verbatim>\<open>try\<close> to the next \<^verbatim>\<open>yield\<close>.\<close>

definition while_body :: "transport \<Rightarrow> slack \<Rightarrow> resumed" where
  "while_body t s =
     (let s1 = s\<lparr>client := client s @ [RtmRead]\<rparr> in
      case rtm_read t (client s) of
        Events events \<Rightarrow> for_loop s1 events
      | ReadRaises e \<Rightarrow>
          if e = BrokenPipeError \<or> e = TimeoutError then
            (case connect t s1 of
               (True, s2) \<Rightarrow> for_loop s2 []
             | (False, s2) \<Rightarrow> (Raised e, s2, Finished))
          else (Raised e, s1, Finished))"

definition events_iter_next :: "transport \<Rightarrow> slack \<Rightarrow> gen \<Rightarrow> resumed" where
  "events_iter_next t s g =
     (case g of
        Created \<Rightarrow>
          (case connect t s of
             (True, s1) \<Rightarrow> while_body t s1
           | (False, s1) \<Rightarrow> (StopIteration, s1, Finished))
      | InFor events \<Rightarrow> for_loop s events
      | AtNone \<Rightarrow> while_body t s
      | Finished \<Rightarrow> (StopIteration, s, Finished))"

section \<open>Callers\<close>

text \<open>
  A caller holds one \<^verbatim>\<open>Slack\<close> object and one generator made by \<^verbatim>\<open>events_iter\<close>, and
  makes calls on them in some order.
\<close>

datatype op =
    Channels
  | GetChannel string
  | GetChannelByName string
  | GetUser string
  | SendMessage string string
  | Next

datatype answer =
    AChannels "exn + channel list"
  | AChannel "exn + channel"
  | AUser "exn + user"
  | ASent "exn + unit"
  | ANext "slack_event option result"

definition perform :: "transport \<Rightarrow> op \<Rightarrow> slack \<Rightarrow> gen \<Rightarrow> answer \<times> slack \<times> gen" where
  "perform t c s g =
     (case c of
        Channels \<Rightarrow> (case channels t s of (r, s1) \<Rightarrow> (AChannels r, s1, g))
      | GetChannel i \<Rightarrow> (case get_channel t s i of (r, s1) \<Rightarrow> (AChannel r, s1, g))
      | GetChannelByName n \<Rightarrow> (case get_channel_by_name t s n of (r, s1) \<Rightarrow> (AChannel r, s1, g))
      | GetUser i \<Rightarrow> (case get_user t s i of (r, s1) \<Rightarrow> (AUser r, s1, g))
      | SendMessage chan msg \<Rightarrow> (case send_message t s chan msg of (r, s1) \<Rightarrow> (ASent r, s1, g))
      | Next \<Rightarrow> (case events_iter_next t s g of (r, s1, g1) \<Rightarrow> (ANext r, s1, g1)))"

fun run :: "transport \<Rightarrow> op list \<Rightarrow> slack \<Rightarrow> gen \<Rightarrow> answer list \<times> slack \<times> gen" where
  "run t [] s g = ([], s, g)"
| "run t (c # cs) s g =
     (case perform t c s g of
        (a, s1, g1) \<Rightarrow> (case run t cs s1 g1 of (as, s2, g2) \<Rightarrow> (a # as, s2, g2)))"

text \<open>How many calls of one API method, and how many reads, the client has seen.\<close>

definition is_api_call :: "string \<Rightarrow> call \<Rightarrow> bool" where
  "is_api_call m c = (case c of ApiCall m' kw \<Rightarrow> m' = m | _ \<Rightarrow> False)"

definition api_calls_of :: "string \<Rightarrow> call list \<Rightarrow> nat" where
  "api_calls_of m log = length (filter (is_api_call m) log)"

definition reads_of :: "call list \<Rightarrow> nat" where
  "reads_of log = length (filter (\<lambda>c. c = RtmRead) log)"

text \<open>
  The caller that takes everything the generator yields while it is inside the \<^verbatim>\<open>for\<close>
  loop: \<^verbatim>\<open>next\<close> again and again, until the generator is suspended at \<^verbatim>\<open>yield None\<close>
  or has finished.
\<close>

definition pending :: "gen \<Rightarrow> nat" where
  "pending g = (case g of InFor events \<Rightarrow> Suc (length events) | _ \<Rightarrow> 0)"

lemma for_loop_pending:
  "for_loop s events = (r, s1, g1) \<Longrightarrow> pending g1 \<le> length events"
proof (induction events arbitrary: s)
  case Nil
  then show ?case by (auto simp: pending_def)
next
  case (Cons event events)
  show ?case
  proof (cases "handle_event s event")
    case (Pair out s')
    with Cons show ?thesis
      by (cases out) (fastforce simp: pending_def)+
  qed
qed

function drain :: "transport \<Rightarrow> slack \<Rightarrow> gen \<Rightarrow> slack_event option result list \<times> slack \<times> gen" where
  "drain t s (InFor events) =
     (case events_iter_next t s (InFor events) of
        (r, s1, g1) \<Rightarrow> (case drain t s1 g1 of (rs, s2, g2) \<Rightarrow> (r # rs, s2, g2)))"
| "drain t s Created = ([], s, Created)"
| "drain t s AtNone = ([], s, AtNone)"
| "drain t s Finished = ([], s, Finished)"
  by pat_completeness auto
termination
proof (relation "measure (\<lambda>(t, s, g). pending g)", goal_cases)
  case 1
  show ?case by simp
next
  case (2 t s events r y s1 g1)
  then have "for_loop s events = (r, s1, g1)"
    by (simp add: events_iter_next_def)
  then have "pending g1 \<le> length events"
    by (rule for_loop_pending)
  then show ?case
    by (simp add: pending_def)
qed

text \<open>
  One read cycle: the \<^verbatim>\<open>next\<close> that makes the generator read, then every \<^verbatim>\<open>next\<close> up to
  and including the one that meets \<^verbatim>\<open>yield None\<close>.
\<close>

definition read_cycle :: "transport \<Rightarrow> slack \<Rightarrow> gen \<Rightarrow> slack_event option result list \<times> slack \<times> gen" where
  "read_cycle t s g =
     (case events_iter_next t s g of
        (r, s1, g1) \<Rightarrow> (case drain t s1 g1 of (rs, s2, g2) \<Rightarrow> (r # rs, s2, g2)))"

text \<open>
  What the envelopes of one read amount to when the \<^verbatim>\<open>for\<close> loop has gone through all of
  them: the events they emit, in order, and the object after the last one.
\<close>

definition emission :: "dict \<Rightarrow> slack_event list" where
  "emission event = (case fst (handle_event init event) of Emit x \<Rightarrow> [x] | _ \<Rightarrow> [])"

definition handled :: "dict list \<Rightarrow> slack \<Rightarrow> slack" where
  "handled events s = fold (\<lambda>event s. snd (handle_event s event)) events s"

text \<open>
  What one read cycle may hand to its caller: typed events and then the marker, or typed
  events and then an exception that ends the generator.
\<close>

definition cycle_ok :: "slack_event option result list \<Rightarrow> gen \<Rightarrow> bool" where
  "cycle_ok rs g \<longleftrightarrow>
     (\<exists>xs. rs = map (\<lambda>x. Yielded (Some x)) xs @ [Yielded None] \<and> g = AtNone)
     \<or> (\<exists>xs e. rs = map (\<lambda>x. Yielded (Some x)) xs @ [Raised e] \<and> g = Finished)"

subsection \<open>The invariant of the lookup caches\<close>

text \<open>
  Whatever \<^verbatim>\<open>get_channel\<close> and \<^verbatim>\<open>get_channel_by_name\<close> have cached came out of the
  list that \<^verbatim>\<open>channels\<close> has cached, under the key it was looked up with.
\<close>

definition memo_inv :: "slack \<Rightarrow> bool" where
  "memo_inv s \<longleftrightarrow>
     (case channels_memo s of
        None \<Rightarrow> get_channel_memo s = [] \<and> get_channel_by_name_memo s = []
      | Some cs \<Rightarrow>
          (\<forall>(k, c)\<in>set (get_channel_memo s). c \<in> set cs \<and> channel_id c = k)
          \<and> (\<forall>(k, c)\<in>set (get_channel_by_name_memo s). c \<in> set cs \<and> channel_name c = k))"

subsection \<open>Two clients and some payloads, as examples\<close>

text \<open>
  A client that accepts every handshake, answers the list and user calls, and whose
  connection is broken until the first handshake after it was created; and a client that
  refuses every handshake, answers every call with \<^verbatim>\<open>ok = false\<close> and times out on
  every read.
\<close>

definition general_json :: json where
  "general_json =
     JObj [(''id'', JStr ''C1''), (''name_normalized'', JStr ''general''),
           (''purpose'', JObj [(''value'', JStr ''talk'')]),
           (''topic'', JObj [(''value'', JStr '''')]),
           (''members'', JList [JStr ''U1''])]"

definition general :: channel where
  "general = \<lparr>channel_id = ''C1'', name_normalized = ''general'',
              purpose = \<lparr>topic_value = ''talk''\<rparr>, topic = \<lparr>topic_value = ''''\<rparr>,
              members = {''U1''}\<rparr>"

definition alice_json :: json where
  "alice_json = JObj [(''id'', JStr ''U1''), (''name'', JStr ''alice''), (''profile'', JObj [])]"

definition alice :: user where
  "alice = \<lparr>user_id = ''U1'', name = ''alice'',
            profile = \<lparr>real_name = ''noname'', email = None, status_text = ''''\<rparr>,
            is_admin = False\<rparr>"

definition hello_envelope :: dict where
  "hello_envelope = [(''type'', JStr ''hello'')]"

definition message_envelope :: dict where
  "message_envelope =
     [(''type'', JStr ''message''), (''channel'', JStr ''C1''), (''user'', JStr ''U1''),
      (''text'', JStr ''hi'')]"

definition changed_envelope :: dict where
  "changed_envelope =
     [(''type'', JStr ''message''), (''subtype'', JStr ''message_changed''),
      (''channel'', JStr ''C1''),
      (''message'', JObj [(''user'', JStr ''U1''), (''text'', JStr ''new'')]),
      (''previous_message'', JObj [(''user'', JStr ''U1''), (''text'', JStr ''old'')])]"

definition deleted_envelope :: dict where
  "deleted_envelope =
     [(''type'', JStr ''message''), (''subtype'', JStr ''message_deleted''),
      (''channel'', JStr ''C2''),
      (''previous_message'', JObj [(''user'', JStr ''U2''), (''text'', JStr ''gone'')])]"

definition user_change_envelope :: dict where
  "user_change_envelope = [(''type'', JStr ''user_change''), (''user'', alice_json)]"

definition answer_ok :: "dict \<Rightarrow> json" where
  "answer_ok payload = JObj ((''ok'', JBool True) # (''headers'', JObj []) # payload)"

definition answer_not_ok :: json where
  "answer_not_ok = JObj [(''ok'', JBool False), (''headers'', JObj [])]"

definition example_client :: transport where
  "example_client =
     \<lparr>api_call = (\<lambda>log m kw.
        if m = ''channels.list'' then answer_ok [(''channels'', JList [general_json])]
        else if m = ''groups.list'' then answer_ok [(''groups'', JList [])]
        else if m = ''users.info'' then answer_ok [(''user'', alice_json)]
        else answer_ok []),
      rtm_connect = (\<lambda>log with_team_state. True),
      rtm_read = (\<lambda>log.
        if RtmConnect False \<in> set log
        then Events [message_envelope, hello_envelope, changed_envelope]
        else ReadRaises BrokenPipeError)\<rparr>"

definition refusing_client :: transport where
  "refusing_client =
     \<lparr>api_call = (\<lambda>log m kw. answer_not_ok),
      rtm_connect = (\<lambda>log with_team_state. False),
      rtm_read = (\<lambda>log. ReadRaises TimeoutError)\<rparr>"

section \<open>Channel.real\_topic\<close>

text \<open>
  C8: \<open>real_topic\<close> is \<open>topic.value\<close> when that string is not empty and \<open>purpose.value\<close>
  otherwise; when both are empty it is the empty string.
\<close>

theorem real_topic_spec:
  "real_topic c = (if topic_value (topic c) \<noteq> '''' then topic_value (topic c)
                    else topic_value (purpose c))
   \<and> (topic_value (topic c) = '''' \<and> topic_value (purpose c) = '''' \<longrightarrow> real_topic c = '''')"
  by (simp add: real_topic_def)

theorem real_topic_spec_witness:
  "real_topic \<lparr>channel_id = ''C1'', name_normalized = ''general'',
               purpose = \<lparr>topic_value = ''''\<rparr>, topic = \<lparr>topic_value = ''''\<rparr>,
               members = {}\<rparr> = ''''"
  using real_topic_spec [of "\<lparr>channel_id = ''C1'', name_normalized = ''general'',
               purpose = \<lparr>topic_value = ''''\<rparr>, topic = \<lparr>topic_value = ''''\<rparr>,
               members = {}\<rparr>"]
  by simp

section \<open>Evaluating the examples\<close>

lemmas load_defs = load_Response_def field_def field_default_def load_bool_def load_headers_def
  load_item_def subscript_def getitem_def load_List_def load_Channel_def load_str_def
  load_Topic_def load_Set_def load_User_def load_Profile_def load_opt_str_def load_Message_def
  load_MessageDelete_def

lemma example_lists:
  "load_Response (api_call example_client log ''channels.list'' kw) = Inr \<lparr>ok = True, headers = []\<rparr>"
  "load_item (api_call example_client log ''channels.list'' kw) ''channels''
     (load_List load_Channel) = Inr [general]"
  "load_Response (api_call example_client log ''groups.list'' kw) = Inr \<lparr>ok = True, headers = []\<rparr>"
  "load_item (api_call example_client log ''groups.list'' kw) ''groups''
     (load_List load_Channel) = Inr []"
  by (simp_all add: example_client_def answer_ok_def general_json_def general_def load_defs)

section \<open>The envelopes of one read\<close>

lemma handle_event_client: "client (snd (handle_event s event)) = client s"
  by (auto simp: handle_event_def Let_def yield_or_raise_def user_change_def
           split: sum.splits if_splits)

lemma for_loop_cases:
  "for_loop s events = (r, s1, g1) \<Longrightarrow>
     client s1 = client s \<and>
     ((r = Yielded None \<and> g1 = AtNone)
      \<or> (\<exists>x rest. r = Yielded (Some x) \<and> g1 = InFor rest \<and> length rest < length events)
      \<or> (\<exists>e. r = Raised e \<and> g1 = Finished))"
proof (induction events arbitrary: s)
  case Nil
  then show ?case by auto
next
  case (Cons event events)
  obtain out s' where h: "handle_event s event = (out, s')"
    by (cases "handle_event s event")
  have c: "client s' = client s"
    using handle_event_client [of s event] h by simp
  show ?case
  proof (cases out)
    case (Emit x)
    with Cons.prems h c show ?thesis by auto
  next
    case NoEmit
    with Cons.prems h have "for_loop s' events = (r, s1, g1)" by simp
    from Cons.IH [OF this] c show ?thesis by auto
  next
    case (Raise e)
    with Cons.prems h c show ?thesis by auto
  qed
qed

lemma cycle_ok_Cons:
  "cycle_ok rs g \<Longrightarrow> cycle_ok (Yielded (Some x) # rs) g"
  unfolding cycle_ok_def
  by (metis (no_types, lifting) append_Cons list.simps(9))

lemma drain_shape:
  "drain t s (InFor events) = (rs, s2, g2) \<Longrightarrow> client s2 = client s \<and> cycle_ok rs g2"
proof (induction "length events" arbitrary: s events rs s2 g2 rule: less_induct)
  case less
  obtain r s1 g1 where f: "for_loop s events = (r, s1, g1)"
    by (cases "for_loop s events")
  obtain rs' s2' g2' where d: "drain t s1 g1 = (rs', s2', g2')"
    by (cases "drain t s1 g1")
  from less.prems f d have eq: "rs = r # rs'" "s2 = s2'" "g2 = g2'"
    by (simp_all add: events_iter_next_def)
  from for_loop_cases [OF f] have c: "client s1 = client s" and
    alt: "(r = Yielded None \<and> g1 = AtNone)
      \<or> (\<exists>x rest. r = Yielded (Some x) \<and> g1 = InFor rest \<and> length rest < length events)
      \<or> (\<exists>e. r = Raised e \<and> g1 = Finished)" by simp_all
  from alt show ?case
  proof (elim disjE exE conjE)
    assume "r = Yielded None" "g1 = AtNone"
    with d eq c show ?thesis by (auto simp: cycle_ok_def)
  next
    fix x rest
    assume a: "r = Yielded (Some x)" "g1 = InFor rest" "length rest < length events"
    from less.hyps [OF a(3)] d a(2) have "client s2' = client s1 \<and> cycle_ok rs' g2'" by simp
    with eq c a(1) show ?thesis by (simp add: cycle_ok_Cons)
  next
    fix e
    assume "r = Raised e" "g1 = Finished"
    with d eq c show ?thesis by (auto simp: cycle_ok_def)
  qed
qed

lemma for_loop_raised:
  "for_loop s events = (Raised e, s1, g1) \<Longrightarrow>
     \<exists>event\<in>set events. \<exists>s'. fst (handle_event s' event) = Raise e"
proof (induction events arbitrary: s)
  case Nil
  then show ?case by simp
next
  case (Cons event events)
  obtain out s' where h: "handle_event s event = (out, s')"
    by (cases "handle_event s event")
  show ?case
  proof (cases out)
    case (Emit x)
    with Cons.prems h show ?thesis by simp
  next
    case NoEmit
    with Cons.prems h have "for_loop s' events = (Raised e, s1, g1)" by simp
    from Cons.IH [OF this] show ?thesis by auto
  next
    case (Raise e')
    with Cons.prems h have "e' = e" by simp
    with Raise h have "fst (handle_event s event) = Raise e" by simp
    then show ?thesis by auto
  qed
qed

lemma for_loop_rest:
  "for_loop s events = (r, s1, InFor rest) \<Longrightarrow> set rest \<subseteq> set events"
proof (induction events arbitrary: s)
  case Nil
  then show ?case by simp
next
  case (Cons event events)
  obtain out s' where h: "handle_event s event = (out, s')"
    by (cases "handle_event s event")
  show ?case
  proof (cases out)
    case (Emit x)
    with Cons.prems h show ?thesis by auto
  next
    case NoEmit
    with Cons.prems h have "for_loop s' events = (r, s1, InFor rest)" by simp
    from Cons.IH [OF this] show ?thesis by auto
  next
    case (Raise e')
    with Cons.prems h show ?thesis by simp
  qed
qed

lemma drain_raised:
  "drain t s (InFor events) = (rs, s2, g2) \<Longrightarrow> Raised e \<in> set rs \<Longrightarrow>
     \<exists>event\<in>set events. \<exists>s'. fst (handle_event s' event) = Raise e"
proof (induction "length events" arbitrary: s events rs s2 g2 rule: less_induct)
  case less
  obtain r s1 g1 where f: "for_loop s events = (r, s1, g1)"
    by (cases "for_loop s events")
  obtain rs' s2' g2' where d: "drain t s1 g1 = (rs', s2', g2')"
    by (cases "drain t s1 g1")
  from less.prems(1) f d have eq: "rs = r # rs'"
    by (simp add: events_iter_next_def)
  show ?case
  proof (cases "r = Raised e")
    case True
    with f for_loop_raised show ?thesis by blast
  next
    case False
    with less.prems(2) eq have in_rest: "Raised e \<in> set rs'" by simp
    show ?thesis
    proof (cases g1)
      case (InFor rest)
      with f for_loop_cases [OF f] have len: "length rest < length events" by auto
      from InFor f have sub: "set rest \<subseteq> set events" by (simp add: for_loop_rest)
      from less.hyps [OF len _ in_rest] d InFor
      have "\<exists>event\<in>set rest. \<exists>s'. fst (handle_event s' event) = Raise e" by simp
      with sub show ?thesis by blast
    qed (use d in_rest in simp_all)
  qed
qed

lemma read_cycle_events:
  "rtm_read t (client s) = Events events \<Longrightarrow>
     read_cycle t s AtNone = drain t (s\<lparr>client := client s @ [RtmRead]\<rparr>) (InFor events)"
  by (simp add: read_cycle_def events_iter_next_def while_body_def)

lemma read_cycle_recovered:
  "rtm_read t (client s) = ReadRaises e \<Longrightarrow> e = BrokenPipeError \<or> e = TimeoutError \<Longrightarrow>
   rtm_connect t (client s @ [RtmRead]) False \<Longrightarrow>
     read_cycle t s AtNone =
       ([Yielded None], s\<lparr>client := client s @ [RtmRead, RtmConnect False]\<rparr>, AtNone)"
  by (auto simp: read_cycle_def events_iter_next_def while_body_def connect_def)

lemma read_cycle_raised:
  "rtm_read t (client s) = ReadRaises e \<Longrightarrow>
   \<not> ((e = BrokenPipeError \<or> e = TimeoutError) \<and> rtm_connect t (client s @ [RtmRead]) False) \<Longrightarrow>
     \<exists>s1. read_cycle t s AtNone = ([Raised e], s1, Finished)"
  by (auto simp: read_cycle_def events_iter_next_def while_body_def connect_def Let_def)

lemma reads_of_simps:
  "reads_of (log @ [RtmRead]) = Suc (reads_of log)"
  "reads_of (log @ [RtmRead, RtmConnect b]) = Suc (reads_of log)"
  by (simp_all add: reads_of_def)

lemma cycle_ok_no_raise:
  "cycle_ok rs g \<Longrightarrow> \<forall>e. Raised e \<notin> set rs \<Longrightarrow>
     \<exists>xs. rs = map (\<lambda>x. Yielded (Some x)) xs @ [Yielded None] \<and> g = AtNone"
  by (auto simp: cycle_ok_def)

lemma handle_event_emit_state: "handle_event s event = (Emit x, s1) \<Longrightarrow> s1 = s"
  by (auto simp: handle_event_def Let_def yield_or_raise_def split: sum.splits if_splits)

text \<open>Whether an envelope emits, and what, does not depend on the object.\<close>

lemma handle_event_outcome:
  "fst (handle_event s event) = fst (handle_event s' event)"
  by (simp add: handle_event_def Let_def yield_or_raise_def user_change_def
           split: sum.splits)

lemma emission_Emit: "handle_event s event = (Emit x, s1) \<Longrightarrow> emission event = [x]"
  using handle_event_outcome [of init event s] by (simp add: emission_def)

lemma emission_NoEmit: "handle_event s event = (NoEmit, s1) \<Longrightarrow> emission event = []"
  using handle_event_outcome [of init event s] by (simp add: emission_def)

lemma handled_Cons: "handled (event # events) s = handled events (snd (handle_event s event))"
  by (simp add: handled_def)

lemma for_loop_emits:
  "\<forall>event\<in>set events. \<forall>s' e. fst (handle_event s' event) \<noteq> Raise e \<Longrightarrow>
   for_loop s events = (r, s1, g1) \<Longrightarrow>
     (r = Yielded None \<and> g1 = AtNone \<and> concat (map emission events) = []
        \<and> s1 = handled events s)
     \<or> (\<exists>x rest. r = Yielded (Some x) \<and> g1 = InFor rest
           \<and> concat (map emission events) = x # concat (map emission rest)
           \<and> handled rest s1 = handled events s
           \<and> length rest < length events \<and> set rest \<subseteq> set events)"
proof (induction events arbitrary: s)
  case Nil
  then show ?case by (auto simp: handled_def)
next
  case (Cons event events)
  obtain out s' where h: "handle_event s event = (out, s')"
    by (cases "handle_event s event")
  have hc: "handled (event # events) s = handled events s'"
    using h by (simp add: handled_Cons)
  show ?case
  proof (cases out)
    case (Emit x)
    with h have "emission event = [x]" by (simp add: emission_Emit)
    with Cons.prems(2) h Emit hc show ?thesis by auto
  next
    case NoEmit
    with h have e: "emission event = []" by (simp add: emission_NoEmit)
    from Cons.prems(1)
    have ok: "\<forall>event\<in>set events. \<forall>s' e. fst (handle_event s' event) \<noteq> Raise e" by simp
    from Cons.prems(2) h NoEmit have "for_loop s' events = (r, s1, g1)" by simp
    from Cons.IH [OF ok this] e hc show ?thesis by auto
  next
    case (Raise e)
    with h have "fst (handle_event s event) = Raise e" by simp
    with Cons.prems(1) show ?thesis by auto
  qed
qed

lemma drain_emits:
  "\<forall>event\<in>set events. \<forall>s' e. fst (handle_event s' event) \<noteq> Raise e \<Longrightarrow>
   drain t s (InFor events) = (rs, s2, g2) \<Longrightarrow>
     rs = map (\<lambda>x. Yielded (Some x)) (concat (map emission events)) @ [Yielded None]
     \<and> s2 = handled events s \<and> g2 = AtNone"
proof (induction "length events" arbitrary: s events rs s2 g2 rule: less_induct)
  case less
  obtain r s1 g1 where f: "for_loop s events = (r, s1, g1)"
    by (cases "for_loop s events")
  obtain rs' s2' g2' where d: "drain t s1 g1 = (rs', s2', g2')"
    by (cases "drain t s1 g1")
  from less.prems(2) f d have eq: "rs = r # rs'" "s2 = s2'" "g2 = g2'"
    by (simp_all add: events_iter_next_def)
  from for_loop_emits [OF less.prems(1) f] show ?case
  proof (elim disjE exE conjE)
    assume "r = Yielded None" "g1 = AtNone" "concat (map emission events) = []"
      "s1 = handled events s"
    with d eq show ?thesis by simp
  next
    fix x rest
    assume a: "r = Yielded (Some x)" "g1 = InFor rest"
      "concat (map emission events) = x # concat (map emission rest)"
      "handled rest s1 = handled events s" "length rest < length events"
      "set rest \<subseteq> set events"
    from a(6) less.prems(1)
    have ok: "\<forall>event\<in>set rest. \<forall>s' e. fst (handle_event s' event) \<noteq> Raise e" by blast
    from d a(2) have "drain t s1 (InFor rest) = (rs', s2', g2')" by simp
    from less.hyps [OF a(5) ok this] eq a(1,3,4) show ?thesis by simp
  qed
qed

lemma read_cycle_delivers:
  assumes "rtm_read t (client s) = Events events"
    and "\<forall>event\<in>set events. \<forall>s' e. fst (handle_event s' event) \<noteq> Raise e"
  shows "read_cycle t s AtNone =
           (map (\<lambda>x. Yielded (Some x)) (concat (map emission events)) @ [Yielded None],
            handled events (s\<lparr>client := client s @ [RtmRead]\<rparr>), AtNone)"
proof -
  obtain rs s2 g2
    where d: "drain t (s\<lparr>client := client s @ [RtmRead]\<rparr>) (InFor events) = (rs, s2, g2)"
    by (cases "drain t (s\<lparr>client := client s @ [RtmRead]\<rparr>) (InFor events)")
  from drain_emits [OF assms(2) d] d read_cycle_events [OF assms(1)] show ?thesis by simp
qed

text \<open>The envelopes of the examples.\<close>

lemma example_envelopes:
  "handle_event s message_envelope =
     (Emit (EvMessage \<lparr>channel = ''C1'', user = ''U1'', text = ''hi''\<rparr>), s)"
  "handle_event s hello_envelope = (NoEmit, s)"
  "handle_event s changed_envelope =
     (Emit (EvMessageEdit \<lparr>channel = ''C1'', user = ''U1'', text = ''old''\<rparr>
                          \<lparr>channel = ''C1'', user = ''U1'', text = ''new''\<rparr>), s)"
  by (simp_all add: handle_event_def message_envelope_def hello_envelope_def
        changed_envelope_def dict_get_def yield_or_raise_def useless_events_def
        message_changed_def inject_channel_def load_defs)

lemma example_emissions:
  "emission message_envelope =
     [EvMessage \<lparr>channel = ''C1'', user = ''U1'', text = ''hi''\<rparr>]"
  "emission hello_envelope = []"
  "emission changed_envelope =
     [EvMessageEdit \<lparr>channel = ''C1'', user = ''U1'', text = ''old''\<rparr>
                    \<lparr>channel = ''C1'', user = ''U1'', text = ''new''\<rparr>]"
  by (simp_all add: example_envelopes emission_def)

lemma example_batch:
  "\<forall>event\<in>set [message_envelope, hello_envelope, changed_envelope].
      \<forall>s' e. fst (handle_event s' event) \<noteq> Raise e"
  "handled [message_envelope, hello_envelope, changed_envelope] s = s"
  by (simp_all add: example_envelopes handled_def)

section \<open>Read cycles and the marker\<close>

text \<open>
  The first cycle, entered from the handshake, is a cycle like every other.
\<close>

lemma read_cycle_first:
  "rtm_connect t (client s) False \<Longrightarrow>
     read_cycle t s Created = read_cycle t (s\<lparr>client := client s @ [RtmConnect False]\<rparr>) AtNone"
  by (simp add: read_cycle_def events_iter_next_def connect_def)

text \<open>
  C4: a read cycle whose envelopes are all processed yields the events those envelopes
  emit, each of them and in their order, and then exactly one \<^verbatim>\<open>None\<close>; the object is
  then as every envelope of the read has left it, the generator waits at the next read,
  and the cycle has made exactly one read. The only other outcome of a cycle is an
  exception, which ends the generator. A cycle with no envelope and a cycle whose read
  failed and whose reconnection succeeded yield the marker alone.
\<close>

theorem read_cycle_marker:
  assumes "read_cycle t s AtNone = (rs, s2, g2)"
  shows
    "((\<exists>xs. rs = map (\<lambda>x. Yielded (Some x)) xs @ [Yielded None] \<and> g2 = AtNone
            \<and> reads_of (client s2) = Suc (reads_of (client s)))
      \<or> (\<exists>xs e. rs = map (\<lambda>x. Yielded (Some x)) xs @ [Raised e] \<and> g2 = Finished))
     \<and> (\<forall>events. rtm_read t (client s) = Events events
            \<and> (\<forall>event\<in>set events. \<forall>s' e. fst (handle_event s' event) \<noteq> Raise e)
          \<longrightarrow> rs = map (\<lambda>x. Yielded (Some x)) (concat (map emission events)) @ [Yielded None]
              \<and> s2 = handled events (s\<lparr>client := client s @ [RtmRead]\<rparr>)
              \<and> g2 = AtNone)
     \<and> (rtm_read t (client s) = Events [] \<longrightarrow> rs = [Yielded None] \<and> g2 = AtNone)
     \<and> (\<forall>e. rtm_read t (client s) = ReadRaises e \<and> (e = BrokenPipeError \<or> e = TimeoutError)
            \<and> rtm_connect t (client s @ [RtmRead]) False
          \<longrightarrow> rs = [Yielded None] \<and> g2 = AtNone
              \<and> reads_of (client s2) = Suc (reads_of (client s)))"
proof -
  let ?A = "\<exists>xs. rs = map (\<lambda>x. Yielded (Some x)) xs @ [Yielded None] \<and> g2 = AtNone
            \<and> reads_of (client s2) = Suc (reads_of (client s))"
  let ?B = "\<exists>xs e. rs = map (\<lambda>x. Yielded (Some x)) xs @ [Raised e] \<and> g2 = Finished"
  have events: "client s2 = client s @ [RtmRead] \<and> cycle_ok rs g2"
    if r: "rtm_read t (client s) = Events events" for events
  proof -
    from assms read_cycle_events [OF r]
    have d: "drain t (s\<lparr>client := client s @ [RtmRead]\<rparr>) (InFor events) = (rs, s2, g2)"
      by simp
    from drain_shape [OF d] show ?thesis by auto
  qed
  have general: "?A \<or> ?B"
  proof (cases "rtm_read t (client s)")
    case (Events events)
    from events [OF Events] show ?thesis
      by (auto simp: cycle_ok_def reads_of_simps)
  next
    case (ReadRaises e)
    show ?thesis
    proof (cases "(e = BrokenPipeError \<or> e = TimeoutError)
                   \<and> rtm_connect t (client s @ [RtmRead]) False")
      case True
      with read_cycle_recovered [OF ReadRaises] assms
      have "rs = [Yielded None]" "g2 = AtNone"
           "client s2 = client s @ [RtmRead, RtmConnect False]" by auto
      then have ?A by (simp add: reads_of_simps)
      then show ?thesis ..
    next
      case False
      from read_cycle_raised [OF ReadRaises False] assms
      have "rs = [Raised e]" "g2 = Finished" by auto
      then have ?B by simp
      then show ?thesis ..
    qed
  qed
  have delivered:
    "rs = map (\<lambda>x. Yielded (Some x)) (concat (map emission events)) @ [Yielded None]
     \<and> s2 = handled events (s\<lparr>client := client s @ [RtmRead]\<rparr>) \<and> g2 = AtNone"
    if r: "rtm_read t (client s) = Events events"
      and ok: "\<forall>event\<in>set events. \<forall>s' e. fst (handle_event s' event) \<noteq> Raise e"
    for events
    using assms read_cycle_delivers [OF r ok] by simp
  have empty: "rs = [Yielded None] \<and> g2 = AtNone" if r: "rtm_read t (client s) = Events []"
    using assms read_cycle_events [OF r] by (simp add: events_iter_next_def)
  have recovered: "rs = [Yielded None] \<and> g2 = AtNone
                    \<and> reads_of (client s2) = Suc (reads_of (client s))"
    if "rtm_read t (client s) = ReadRaises e" "e = BrokenPipeError \<or> e = TimeoutError"
       "rtm_connect t (client s @ [RtmRead]) False" for e
    using assms read_cycle_recovered [OF that] by (auto simp: reads_of_simps)
  from general delivered empty recovered show ?thesis by blast
qed

theorem read_cycle_marker_witness:
  "read_cycle example_client (init\<lparr>client := [RtmConnect False]\<rparr>) AtNone =
     ([Yielded (Some (EvMessage \<lparr>channel = ''C1'', user = ''U1'', text = ''hi''\<rparr>)),
       Yielded (Some (EvMessageEdit \<lparr>channel = ''C1'', user = ''U1'', text = ''old''\<rparr>
                                    \<lparr>channel = ''C1'', user = ''U1'', text = ''new''\<rparr>)),
       Yielded None],
      init\<lparr>client := [RtmConnect False, RtmRead]\<rparr>, AtNone)"
proof -
  let ?s = "init\<lparr>client := [RtmConnect False]\<rparr>"
  obtain rs s2 g2 where c: "read_cycle example_client ?s AtNone = (rs, s2, g2)"
    by (cases "read_cycle example_client ?s AtNone")
  have r: "rtm_read example_client (client ?s) =
             Events [message_envelope, hello_envelope, changed_envelope]"
    by (simp add: example_client_def)
  from read_cycle_marker [OF c] r example_batch(1)
  have "rs = map (\<lambda>x. Yielded (Some x))
               (concat (map emission [message_envelope, hello_envelope, changed_envelope]))
             @ [Yielded None]
        \<and> s2 = handled [message_envelope, hello_envelope, changed_envelope]
                 (?s\<lparr>client := client ?s @ [RtmRead]\<rparr>)
        \<and> g2 = AtNone"
    by blast
  with c show ?thesis
    by (simp add: example_emissions example_batch(2))
qed

section \<open>Transport failures\<close>

text \<open>
  C2: when a read raises \<^verbatim>\<open>BrokenPipeError\<close> or \<^verbatim>\<open>TimeoutError\<close>, the loop body calls
  \<^verbatim>\<open>rtm_connect\<close> exactly once. If that succeeds, the cycle yields the marker and the
  generator stays in the loop: the next \<^verbatim>\<open>next\<close> reads from the client again and yields
  the event of the first envelope of that read, and the cycle it starts yields every
  event the envelopes of that read emit, in order, before its marker. If the handshake
  fails, the same exception is raised to the caller and the generator is finished.
\<close>

theorem transport_failure_one_rehandshake:
  assumes "rtm_read t (client s) = ReadRaises e"
    and "e = BrokenPipeError \<or> e = TimeoutError"
  shows
    "events_iter_next t s AtNone = while_body t s
     \<and> client (fst (snd (while_body t s))) = client s @ [RtmRead, RtmConnect False]
     \<and> (rtm_connect t (client s @ [RtmRead]) False \<longrightarrow>
          while_body t s =
            (Yielded None, s\<lparr>client := client s @ [RtmRead, RtmConnect False]\<rparr>, AtNone)
          \<and> (\<forall>events.
                rtm_read t (client s @ [RtmRead, RtmConnect False]) = Events events \<longrightarrow>
                events_iter_next t (s\<lparr>client := client s @ [RtmRead, RtmConnect False]\<rparr>) AtNone =
                  for_loop (s\<lparr>client := client s @ [RtmRead, RtmConnect False, RtmRead]\<rparr>) events)
          \<and> (\<forall>event events x s1.
                rtm_read t (client s @ [RtmRead, RtmConnect False]) = Events (event # events)
                \<and> handle_event (s\<lparr>client := client s @ [RtmRead, RtmConnect False, RtmRead]\<rparr>)
                      event = (Emit x, s1) \<longrightarrow>
                events_iter_next t (s\<lparr>client := client s @ [RtmRead, RtmConnect False]\<rparr>) AtNone =
                  (Yielded (Some x),
                   s\<lparr>client := client s @ [RtmRead, RtmConnect False, RtmRead]\<rparr>,
                   InFor events))
          \<and> (\<forall>events.
                rtm_read t (client s @ [RtmRead, RtmConnect False]) = Events events
                \<and> (\<forall>event\<in>set events. \<forall>s' e. fst (handle_event s' event) \<noteq> Raise e) \<longrightarrow>
                read_cycle t (s\<lparr>client := client s @ [RtmRead, RtmConnect False]\<rparr>) AtNone =
                  (map (\<lambda>x. Yielded (Some x)) (concat (map emission events)) @ [Yielded None],
                   handled events
                     (s\<lparr>client := client s @ [RtmRead, RtmConnect False, RtmRead]\<rparr>),
                   AtNone)))
     \<and> (\<not> rtm_connect t (client s @ [RtmRead]) False \<longrightarrow>
          while_body t s =
            (Raised e, s\<lparr>client := client s @ [RtmRead, RtmConnect False]\<rparr>, Finished)
          \<and> events_iter_next t (s\<lparr>client := client s @ [RtmRead, RtmConnect False]\<rparr>) Finished =
              (StopIteration, s\<lparr>client := client s @ [RtmRead, RtmConnect False]\<rparr>, Finished))"
proof -
  let ?s1 = "s\<lparr>client := client s @ [RtmRead, RtmConnect False]\<rparr>"
  let ?s2 = "s\<lparr>client := client s @ [RtmRead, RtmConnect False, RtmRead]\<rparr>"
  have next_body: "events_iter_next t s AtNone = while_body t s"
    by (simp add: events_iter_next_def)
  have log: "client (fst (snd (while_body t s))) = client s @ [RtmRead, RtmConnect False]"
    using assms
    by (cases "rtm_connect t (client s @ [RtmRead]) False")
       (auto simp: while_body_def connect_def Let_def)
  have recovered: "while_body t s = (Yielded None, ?s1, AtNone)"
    if "rtm_connect t (client s @ [RtmRead]) False"
    using assms that by (auto simp: while_body_def connect_def Let_def)
  have resumes: "events_iter_next t ?s1 AtNone = for_loop ?s2 events"
    if "rtm_read t (client s @ [RtmRead, RtmConnect False]) = Events events" for events
    using that by (simp add: events_iter_next_def while_body_def)
  have first: "events_iter_next t ?s1 AtNone = (Yielded (Some x), ?s2, InFor events)"
    if r: "rtm_read t (client s @ [RtmRead, RtmConnect False]) = Events (event # events)"
      and h: "handle_event ?s2 event = (Emit x, s1)" for event events x s1
  proof -
    from handle_event_emit_state [OF h] have "s1 = ?s2" .
    with resumes [OF r] h show ?thesis by simp
  qed
  have cycle: "read_cycle t ?s1 AtNone =
                 (map (\<lambda>x. Yielded (Some x)) (concat (map emission events)) @ [Yielded None],
                  handled events ?s2, AtNone)"
    if r: "rtm_read t (client s @ [RtmRead, RtmConnect False]) = Events events"
      and ok: "\<forall>event\<in>set events. \<forall>s' e. fst (handle_event s' event) \<noteq> Raise e"
    for events
  proof -
    have "rtm_read t (client ?s1) = Events events" using r by simp
    from read_cycle_delivers [OF this ok] show ?thesis by simp
  qed
  have failed: "while_body t s = (Raised e, ?s1, Finished)
                \<and> events_iter_next t ?s1 Finished = (StopIteration, ?s1, Finished)"
    if "\<not> rtm_connect t (client s @ [RtmRead]) False"
    using assms that by (auto simp: events_iter_next_def while_body_def connect_def Let_def)
  from next_body log recovered resumes first cycle failed show ?thesis by blast
qed

theorem transport_failure_one_rehandshake_witness:
  "events_iter_next example_client init AtNone =
     (Yielded None, init\<lparr>client := client init @ [RtmRead, RtmConnect False]\<rparr>, AtNone)
   \<and> events_iter_next example_client
        (init\<lparr>client := client init @ [RtmRead, RtmConnect False]\<rparr>) AtNone =
      (Yielded (Some (EvMessage \<lparr>channel = ''C1'', user = ''U1'', text = ''hi''\<rparr>)),
       init\<lparr>client := client init @ [RtmRead, RtmConnect False, RtmRead]\<rparr>,
       InFor [hello_envelope, changed_envelope])
   \<and> read_cycle example_client
        (init\<lparr>client := client init @ [RtmRead, RtmConnect False]\<rparr>) AtNone =
      ([Yielded (Some (EvMessage \<lparr>channel = ''C1'', user = ''U1'', text = ''hi''\<rparr>)),
        Yielded (Some (EvMessageEdit \<lparr>channel = ''C1'', user = ''U1'', text = ''old''\<rparr>
                                     \<lparr>channel = ''C1'', user = ''U1'', text = ''new''\<rparr>)),
        Yielded None],
       init\<lparr>client := client init @ [RtmRead, RtmConnect False, RtmRead]\<rparr>, AtNone)
   \<and> events_iter_next refusing_client init AtNone =
     (Raised TimeoutError, init\<lparr>client := client init @ [RtmRead, RtmConnect False]\<rparr>,
      Finished)"
proof -
  let ?s2 = "init\<lparr>client := client init @ [RtmRead, RtmConnect False, RtmRead]\<rparr>"
  have r1: "rtm_read example_client (client init) = ReadRaises BrokenPipeError"
    by (simp add: example_client_def init_def)
  have c1: "rtm_connect example_client (client init @ [RtmRead]) False"
    by (simp add: example_client_def)
  have n1: "rtm_read example_client (client init @ [RtmRead, RtmConnect False]) =
              Events (message_envelope # [hello_envelope, changed_envelope])"
    by (simp add: example_client_def)
  have h1: "handle_event ?s2 message_envelope =
              (Emit (EvMessage \<lparr>channel = ''C1'', user = ''U1'', text = ''hi''\<rparr>), ?s2)"
    by (rule example_envelopes)
  have r2: "rtm_read refusing_client (client init) = ReadRaises TimeoutError"
    by (simp add: refusing_client_def)
  have c2: "\<not> rtm_connect refusing_client (client init @ [RtmRead]) False"
    by (simp add: refusing_client_def)
  note a = transport_failure_one_rehandshake [OF r1, of ]
  from transport_failure_one_rehandshake [OF r1] c1
  have a1: "events_iter_next example_client init AtNone =
              (Yielded None, init\<lparr>client := client init @ [RtmRead, RtmConnect False]\<rparr>, AtNone)"
    by simp
  from transport_failure_one_rehandshake [OF r1] c1 n1 h1
  have a2: "events_iter_next example_client
              (init\<lparr>client := client init @ [RtmRead, RtmConnect False]\<rparr>) AtNone =
            (Yielded (Some (EvMessage \<lparr>channel = ''C1'', user = ''U1'', text = ''hi''\<rparr>)),
             ?s2, InFor [hello_envelope, changed_envelope])"
    by blast
  from transport_failure_one_rehandshake [OF r1] c1 n1 example_batch(1)
  have "read_cycle example_client
          (init\<lparr>client := client init @ [RtmRead, RtmConnect False]\<rparr>) AtNone =
        (map (\<lambda>x. Yielded (Some x))
           (concat (map emission [message_envelope, hello_envelope, changed_envelope]))
         @ [Yielded None],
         handled [message_envelope, hello_envelope, changed_envelope] ?s2, AtNone)"
    by simp
  then have a3: "read_cycle example_client
          (init\<lparr>client := client init @ [RtmRead, RtmConnect False]\<rparr>) AtNone =
      ([Yielded (Some (EvMessage \<lparr>channel = ''C1'', user = ''U1'', text = ''hi''\<rparr>)),
        Yielded (Some (EvMessageEdit \<lparr>channel = ''C1'', user = ''U1'', text = ''old''\<rparr>
                                     \<lparr>channel = ''C1'', user = ''U1'', text = ''new''\<rparr>)),
        Yielded None], ?s2, AtNone)"
    by (simp add: example_emissions example_batch(2))
  from transport_failure_one_rehandshake [OF r2] c2
  have b: "events_iter_next refusing_client init AtNone =
     (Raised TimeoutError, init\<lparr>client := client init @ [RtmRead, RtmConnect False]\<rparr>,
      Finished)"
    by simp
  from a1 a2 a3 b show ?thesis by blast
qed

text \<open>
  C3, as stated, fails: when the first \<^verbatim>\<open>rtm_connect\<close> returns false, nothing is
  raised.
\<close>

theorem initial_handshake_raises_counterexample:
  "\<not> rtm_connect refusing_client (client init) False
   \<and> events_iter_next refusing_client init Created =
       (StopIteration, init\<lparr>client := [RtmConnect False]\<rparr>, Finished)"
  by (simp add: events_iter_next_def connect_def refusing_client_def init_def)

text \<open>
  C3, amended: when the first \<^verbatim>\<open>rtm_connect\<close> returns false, the generator returns at
  once. The first \<^verbatim>\<open>next\<close> finds it exhausted, no read has been attempted, and it
  stays exhausted.
\<close>

theorem initial_handshake_failure_ends:
  assumes "\<not> rtm_connect t (client s) False"
  shows "events_iter_next t s Created =
           (StopIteration, s\<lparr>client := client s @ [RtmConnect False]\<rparr>, Finished)
       \<and> events_iter_next t (s\<lparr>client := client s @ [RtmConnect False]\<rparr>) Finished =
           (StopIteration, s\<lparr>client := client s @ [RtmConnect False]\<rparr>, Finished)"
  using assms by (simp add: events_iter_next_def connect_def)

theorem initial_handshake_failure_ends_witness:
  "events_iter_next refusing_client init Created =
     (StopIteration, init\<lparr>client := client init @ [RtmConnect False]\<rparr>, Finished)"
proof -
  have h: "\<not> rtm_connect refusing_client (client init) False"
    by (simp add: refusing_client_def)
  from initial_handshake_failure_ends [OF h] show ?thesis by simp
qed

section \<open>Edited and deleted messages\<close>

lemma inject_channel_ok:
  assumes "map_of event ''channel'' = Some c" and "map_of event k = Some (JObj nested)"
  shows "inject_channel event k =
           Inr (AList.update k (JObj (AList.update ''channel'' c nested)) event)"
  using assms by (simp add: inject_channel_def getitem_def)

lemma load_Message_ok:
  assumes "map_of d ''channel'' = Some (JStr c)" and "map_of d ''user'' = Some (JStr u)"
    and "map_of d ''text'' = Some (JStr t)"
  shows "load_Message (JObj d) = Inr \<lparr>channel = c, user = u, text = t\<rparr>"
  using assms by (simp add: load_Message_def field_def load_str_def)

lemma load_item_injected:
  assumes "map_of nested ''user'' = Some (JStr u)" and "map_of nested ''text'' = Some (JStr t)"
    and "map_of event k = Some (JObj (AList.update ''channel'' (JStr c) nested))"
  shows "load_item (JObj event) k load_Message = Inr \<lparr>channel = c, user = u, text = t\<rparr>"
  using assms
  by (simp add: load_item_def subscript_def getitem_def load_Message_ok update_conv')

text \<open>
  C5: for an envelope of type \<^verbatim>\<open>message\<close> and subtype \<^verbatim>\<open>message_changed\<close> with channel
  \<open>C\<close>, the channel is written into the nested \<^verbatim>\<open>message\<close> and \<^verbatim>\<open>previous_message\<close>,
  and the event emitted is a \<^verbatim>\<open>MessageEdit\<close> whose \<^verbatim>\<open>previous\<close> and \<^verbatim>\<open>current\<close> carry
  \<open>C\<close> with the user and text of the nested payloads.
\<close>

theorem message_changed_emits_edit:
  assumes "map_of event ''type'' = Some (JStr ''message'')"
    and "map_of event ''subtype'' = Some (JStr ''message_changed'')"
    and "map_of event ''channel'' = Some (JStr C)"
    and "map_of event ''message'' = Some (JObj m)"
    and "map_of m ''user'' = Some (JStr U)"
    and "map_of m ''text'' = Some (JStr T_new)"
    and "map_of event ''previous_message'' = Some (JObj p)"
    and "map_of p ''user'' = Some (JStr U')"
    and "map_of p ''text'' = Some (JStr T_old)"
  shows "message_changed event =
           Inr (EvMessageEdit \<lparr>channel = C, user = U', text = T_old\<rparr>
                              \<lparr>channel = C, user = U, text = T_new\<rparr>)
       \<and> handle_event s event =
           (Emit (EvMessageEdit \<lparr>channel = C, user = U', text = T_old\<rparr>
                                \<lparr>channel = C, user = U, text = T_new\<rparr>), s)
       \<and> for_loop s (event # events) =
           (Yielded (Some (EvMessageEdit \<lparr>channel = C, user = U', text = T_old\<rparr>
                                         \<lparr>channel = C, user = U, text = T_new\<rparr>)), s, InFor events)"
proof -
  let ?e1 = "AList.update ''message'' (JObj (AList.update ''channel'' (JStr C) m)) event"
  let ?e2 = "AList.update ''previous_message'' (JObj (AList.update ''channel'' (JStr C) p)) ?e1"
  have i1: "inject_channel event ''message'' = Inr ?e1"
    using assms(3,4) by (rule inject_channel_ok)
  have "map_of ?e1 ''channel'' = Some (JStr C)" "map_of ?e1 ''previous_message'' = Some (JObj p)"
    using assms(3,7) by (simp_all add: update_conv')
  then have i2: "inject_channel ?e1 ''previous_message'' = Inr ?e2"
    by (rule inject_channel_ok)
  have p: "load_item (JObj ?e2) ''previous_message'' load_Message
             = Inr \<lparr>channel = C, user = U', text = T_old\<rparr>"
    using assms(8,9) by (rule load_item_injected) (simp add: update_conv')
  have c: "load_item (JObj ?e2) ''message'' load_Message
             = Inr \<lparr>channel = C, user = U, text = T_new\<rparr>"
    using assms(5,6) by (rule load_item_injected) (simp add: update_conv')
  have mc: "message_changed event =
           Inr (EvMessageEdit \<lparr>channel = C, user = U', text = T_old\<rparr>
                              \<lparr>channel = C, user = U, text = T_new\<rparr>)"
    by (simp add: message_changed_def i1 i2 p c)
  have he: "handle_event s event =
           (Emit (EvMessageEdit \<lparr>channel = C, user = U', text = T_old\<rparr>
                                \<lparr>channel = C, user = U, text = T_new\<rparr>), s)"
    using assms(1,2) by (simp add: handle_event_def dict_get_def mc yield_or_raise_def)
  show ?thesis
    using mc he by simp
qed

theorem message_changed_emits_edit_witness:
  "handle_event init changed_envelope =
     (Emit (EvMessageEdit \<lparr>channel = ''C1'', user = ''U1'', text = ''old''\<rparr>
                          \<lparr>channel = ''C1'', user = ''U1'', text = ''new''\<rparr>), init)"
proof -
  have "map_of changed_envelope ''type'' = Some (JStr ''message'')"
    "map_of changed_envelope ''subtype'' = Some (JStr ''message_changed'')"
    "map_of changed_envelope ''channel'' = Some (JStr ''C1'')"
    "map_of changed_envelope ''message'' =
       Some (JObj [(''user'', JStr ''U1''), (''text'', JStr ''new'')])"
    "map_of [(''user'', JStr ''U1''), (''text'', JStr ''new'')] ''user'' = Some (JStr ''U1'')"
    "map_of [(''user'', JStr ''U1''), (''text'', JStr ''new'')] ''text'' = Some (JStr ''new'')"
    "map_of changed_envelope ''previous_message'' =
       Some (JObj [(''user'', JStr ''U1''), (''text'', JStr ''old'')])"
    "map_of [(''user'', JStr ''U1''), (''text'', JStr ''old'')] ''user'' = Some (JStr ''U1'')"
    "map_of [(''user'', JStr ''U1''), (''text'', JStr ''old'')] ''text'' = Some (JStr ''old'')"
    by (simp_all add: changed_envelope_def)
  from message_changed_emits_edit [OF this, of init "[]"] show ?thesis by simp
qed

text \<open>
  No envelope sent down the \<^verbatim>\<open>message_deleted\<close> branch emits an event: the load into
  \<^verbatim>\<open>MessageDelete\<close> never returns.
\<close>

lemma message_deleted_never_emits: "message_deleted event \<noteq> Inr x"
  by (auto simp: message_deleted_def load_item_def subscript_def load_MessageDelete_def
           split: sum.splits json.splits)

text \<open>
  C6: for the envelope of type \<^verbatim>\<open>message\<close> and subtype \<^verbatim>\<open>message_deleted\<close> with channel
  \<^verbatim>\<open>C2\<close> and nested \<^verbatim>\<open>previous_message\<close> of user \<^verbatim>\<open>U2\<close> and text \<^verbatim>\<open>gone\<close>, the channel is
  written into the nested payload, but no \<^verbatim>\<open>MessageDelete\<close> is emitted: the load raises
  TypeError, which ends the generator, also when envelopes follow in the same read.
\<close>

theorem message_deleted_raises:
  "inject_channel deleted_envelope ''previous_message'' =
     Inr [(''type'', JStr ''message''), (''subtype'', JStr ''message_deleted''),
          (''channel'', JStr ''C2''),
          (''previous_message'',
           JObj [(''user'', JStr ''U2''), (''text'', JStr ''gone''), (''channel'', JStr ''C2'')])]
   \<and> handle_event init deleted_envelope = (Raise TypeError, init)
   \<and> for_loop init [deleted_envelope, message_envelope] = (Raised TypeError, init, Finished)"
proof -
  have i: "inject_channel deleted_envelope ''previous_message'' =
     Inr [(''type'', JStr ''message''), (''subtype'', JStr ''message_deleted''),
          (''channel'', JStr ''C2''),
          (''previous_message'',
           JObj [(''user'', JStr ''U2''), (''text'', JStr ''gone''), (''channel'', JStr ''C2'')])]"
    by (simp add: inject_channel_def getitem_def deleted_envelope_def)
  have md: "message_deleted deleted_envelope = Inl TypeError"
    by (simp add: message_deleted_def i load_item_def subscript_def getitem_def
          load_MessageDelete_def)
  have t: "dict_get deleted_envelope ''type'' = JStr ''message''"
    "dict_get deleted_envelope ''subtype'' = JStr ''message_deleted''"
    by (simp_all add: dict_get_def deleted_envelope_def)
  have h: "handle_event init deleted_envelope = (Raise TypeError, init)"
    by (simp add: handle_event_def t md yield_or_raise_def)
  from i h show ?thesis by simp
qed

section \<open>Changed users\<close>

text \<open>
  No envelope of type \<^verbatim>\<open>user_change\<close> emits an event or calls the client, whether its
  nested user decodes or not (when it does not, the exception ends the generator).
\<close>

lemma user_change_never_emits:
  assumes "map_of event ''type'' = Some (JStr ''user_change'')"
  shows "fst (handle_event s event) \<noteq> Emit x"
    and "client (snd (handle_event s event)) = client s"
proof -
  show "fst (handle_event s event) \<noteq> Emit x"
    using assms by (simp add: handle_event_def dict_get_def split: sum.splits)
  show "client (snd (handle_event s event)) = client s"
    by (rule handle_event_client)
qed

text \<open>
  C7: an envelope of type \<^verbatim>\<open>user_change\<close> whose nested user decodes emits nothing and
  calls nothing. If the id of the user is in \<^verbatim>\<open>_usercache\<close>, the entry is removed, and
  the next \<^verbatim>\<open>get_user\<close> of that id makes exactly one \<^verbatim>\<open>users.info\<close> call; if it is not,
  the object is left as it was.
\<close>

theorem user_change_evicts:
  assumes "map_of event ''type'' = Some (JStr ''user_change'')"
    and "map_of event ''user'' = Some j"
    and "load_User j = Inr u"
  shows
    "fst (handle_event s event) = NoEmit
     \<and> client (snd (handle_event s event)) = client s
     \<and> for_loop s (event # events) = for_loop (snd (handle_event s event)) events
     \<and> (user_id u \<in> dom (usercache s) \<longrightarrow>
          snd (handle_event s event) = s\<lparr>usercache := (usercache s)(user_id u := None)\<rparr>
          \<and> client (snd (get_user t (snd (handle_event s event)) (user_id u))) =
              client s @ [ApiCall ''users.info'' [(''user'', JStr (user_id u))]])
     \<and> (user_id u \<notin> dom (usercache s) \<longrightarrow> snd (handle_event s event) = s)"
proof -
  have uc: "user_change s event =
              (if user_id u \<in> dom (usercache s)
               then Inr (s\<lparr>usercache := (usercache s)(user_id u := None)\<rparr>) else Inr s)"
    using assms(2,3) by (simp add: user_change_def load_item_def subscript_def getitem_def)
  have he: "handle_event s event =
              (NoEmit, if user_id u \<in> dom (usercache s)
                       then s\<lparr>usercache := (usercache s)(user_id u := None)\<rparr> else s)"
    using assms(1) by (simp add: handle_event_def dict_get_def uc)
  have fetch: "client (snd (get_user t (s\<lparr>usercache := (usercache s)(user_id u := None)\<rparr>)
                                     (user_id u))) =
                 client s @ [ApiCall ''users.info'' [(''user'', JStr (user_id u))]]"
    by (simp add: get_user_def call_api_def split: sum.splits)
  show ?thesis
    using he fetch by simp
qed

theorem user_change_evicts_witness:
  "handle_event (init\<lparr>usercache := [''U1'' \<mapsto> alice]\<rparr>) user_change_envelope = (NoEmit, init)
   \<and> client (snd (get_user example_client
        (snd (handle_event (init\<lparr>usercache := [''U1'' \<mapsto> alice]\<rparr>) user_change_envelope))
        ''U1'')) =
       [ApiCall ''users.info'' [(''user'', JStr ''U1'')]]
   \<and> handle_event init user_change_envelope = (NoEmit, init)"
proof -
  let ?s = "init\<lparr>usercache := [''U1'' \<mapsto> alice]\<rparr>"
  have t: "map_of user_change_envelope ''type'' = Some (JStr ''user_change'')"
    and u: "map_of user_change_envelope ''user'' = Some alice_json"
    by (simp_all add: user_change_envelope_def)
  have l: "load_User alice_json = Inr alice"
    by (simp add: alice_json_def alice_def load_defs)
  have i: "user_id alice = ''U1''" by (simp add: alice_def)
  have cached: "user_id alice \<in> dom (usercache ?s)" by (simp add: i)
  have fresh: "user_id alice \<notin> dom (usercache init)" by (simp add: init_def)
  have e: "?s\<lparr>usercache := (usercache ?s)(user_id alice := None)\<rparr> = init"
    by (simp add: init_def i)
  note a = user_change_evicts [OF t u l, of ?s "[]" example_client]
  note b = user_change_evicts [OF t u l, of init "[]" example_client]
  from a have af: "fst (handle_event ?s user_change_envelope) = NoEmit" by blast
  from a cached
  have "snd (handle_event ?s user_change_envelope) =
          ?s\<lparr>usercache := (usercache ?s)(user_id alice := None)\<rparr>" by blast
  then have as: "snd (handle_event ?s user_change_envelope) = init" by (simp only: e)
  from af as have a1: "handle_event ?s user_change_envelope = (NoEmit, init)"
    by (simp add: prod_eq_iff)
  from a cached
  have "client (snd (get_user example_client (snd (handle_event ?s user_change_envelope))
                       (user_id alice))) =
          client ?s @ [ApiCall ''users.info'' [(''user'', JStr (user_id alice))]]" by blast
  then have a2: "client (snd (get_user example_client
                                (snd (handle_event ?s user_change_envelope)) ''U1'')) =
                   [ApiCall ''users.info'' [(''user'', JStr ''U1'')]]"
    by (simp add: i init_def)
  from b have bf: "fst (handle_event init user_change_envelope) = NoEmit" by blast
  from b fresh have "snd (handle_event init user_change_envelope) = init" by blast
  with bf have b1: "handle_event init user_change_envelope = (NoEmit, init)"
    by (simp add: prod_eq_iff)
  from a1 a2 b1 show ?thesis by blast
qed

section \<open>The channel caches\<close>

lemma fetch_list_state:
  "snd (fetch_list t s m k) = s\<lparr>client := client s @ [ApiCall m exclude_archived]\<rparr>"
  by (simp add: fetch_list_def call_api_def split: sum.splits)

lemma fetch_list_ok:
  assumes "load_Response (api_call t (client s) m exclude_archived) = Inr resp" and "ok resp"
    and "load_item (api_call t (client s) m exclude_archived) k (load_List load_Channel) = Inr cs"
  shows "fetch_list t s m k = (Inr cs, s\<lparr>client := client s @ [ApiCall m exclude_archived]\<rparr>)"
  using assms by (simp add: fetch_list_def call_api_def)

lemma fetch_list_not_ok:
  assumes "load_Response (api_call t (client s) m exclude_archived) = Inr resp" and "\<not> ok resp"
  shows "fetch_list t s m k =
           (Inl (ResponseException resp), s\<lparr>client := client s @ [ApiCall m exclude_archived]\<rparr>)"
  using assms by (simp add: fetch_list_def call_api_def)

lemma channels_body_state:
  "\<exists>rest. snd (channels_body t s) =
            s\<lparr>client := client s @ ApiCall ''channels.list'' exclude_archived # rest\<rparr>"
proof (cases "fetch_list t s ''channels.list'' ''channels''")
  case (Pair r1 s1)
  with fetch_list_state [of t s "''channels.list''" "''channels''"]
  have s1: "s1 = s\<lparr>client := client s @ [ApiCall ''channels.list'' exclude_archived]\<rparr>"
    by simp
  show ?thesis
  proof (cases r1)
    case (Inl e)
    with Pair s1 have "snd (channels_body t s) =
        s\<lparr>client := client s @ ApiCall ''channels.list'' exclude_archived # []\<rparr>"
      by (simp add: channels_body_def)
    then show ?thesis by blast
  next
    case (Inr cs)
    obtain r2 s2 where f2: "fetch_list t s1 ''groups.list'' ''groups'' = (r2, s2)"
      by (cases "fetch_list t s1 ''groups.list'' ''groups''")
    with fetch_list_state [of t s1 "''groups.list''" "''groups''"]
    have "s2 = s1\<lparr>client := client s1 @ [ApiCall ''groups.list'' exclude_archived]\<rparr>"
      by simp
    with Pair Inr f2 s1 have "snd (channels_body t s) =
        s\<lparr>client := client s @ ApiCall ''channels.list'' exclude_archived
                                  # [ApiCall ''groups.list'' exclude_archived]\<rparr>"
      by (cases r2) (simp_all add: channels_body_def)
    then show ?thesis by blast
  qed
qed

lemma channels_hit: "channels_memo s = Some cs \<Longrightarrow> channels t s = (Inr cs, s)"
  by (simp add: channels_def)

lemma channels_result:
  assumes "channels t s = (Inr cs, s1)"
  shows "channels_memo s1 = Some cs"
    and "get_channel_memo s1 = get_channel_memo s"
    and "get_channel_by_name_memo s1 = get_channel_by_name_memo s"
    and "channels_memo s = None \<or> s1 = s"
proof -
  obtain rest where b: "snd (channels_body t s) =
      s\<lparr>client := client s @ ApiCall ''channels.list'' exclude_archived # rest\<rparr>"
    using channels_body_state by blast
  show "channels_memo s1 = Some cs"
    using assms by (auto simp: channels_def split: option.splits prod.splits sum.splits)
  show "get_channel_memo s1 = get_channel_memo s"
    using assms b by (auto simp: channels_def split: option.splits prod.splits sum.splits)
  show "get_channel_by_name_memo s1 = get_channel_by_name_memo s"
    using assms b by (auto simp: channels_def split: option.splits prod.splits sum.splits)
  show "channels_memo s = None \<or> s1 = s"
    using assms by (auto simp: channels_def split: option.splits prod.splits sum.splits)
qed

lemma channels_failure:
  assumes "channels t s = (Inl e, s1)"
  shows "channels_memo s = None"
    and "\<exists>rest. s1 = s\<lparr>client := client s @ ApiCall ''channels.list'' exclude_archived # rest\<rparr>"
proof -
  show n: "channels_memo s = None"
    using assms by (auto simp: channels_def split: option.splits)
  obtain rest where b: "snd (channels_body t s) =
      s\<lparr>client := client s @ ApiCall ''channels.list'' exclude_archived # rest\<rparr>"
    using channels_body_state by blast
  from assms n have "s1 = snd (channels_body t s)"
    by (auto simp: channels_def split: prod.splits sum.splits)
  with b show "\<exists>rest. s1 = s\<lparr>client := client s @ ApiCall ''channels.list'' exclude_archived # rest\<rparr>"
    by auto
qed

lemma api_calls_of_append:
  "api_calls_of m (log @ log') = api_calls_of m log + api_calls_of m log'"
  by (simp add: api_calls_of_def)

lemma api_calls_of_single:
  "api_calls_of m (ApiCall m' kw # log) = (if m' = m then Suc (api_calls_of m log) else api_calls_of m log)"
  "api_calls_of m (RtmRead # log) = api_calls_of m log"
  "api_calls_of m (RtmConnect b # log) = api_calls_of m log"
  "api_calls_of m [] = 0"
  by (simp_all add: api_calls_of_def is_api_call_def)

lemma handle_event_frame:
  assumes "handle_event s event = (out, s1)"
  shows "channels_memo s1 = channels_memo s \<and> get_channel_memo s1 = get_channel_memo s
         \<and> get_channel_by_name_memo s1 = get_channel_by_name_memo s \<and> client s1 = client s"
  using assms
  by (auto simp: handle_event_def Let_def yield_or_raise_def user_change_def
           split: sum.splits if_splits)

lemma for_loop_frame:
  "for_loop s events = (r, s1, g1) \<Longrightarrow>
     channels_memo s1 = channels_memo s \<and> get_channel_memo s1 = get_channel_memo s
     \<and> get_channel_by_name_memo s1 = get_channel_by_name_memo s \<and> client s1 = client s"
proof (induction events arbitrary: s)
  case Nil
  then show ?case by auto
next
  case (Cons event events)
  obtain out s' where h: "handle_event s event = (out, s')"
    by (cases "handle_event s event")
  note f = handle_event_frame [OF h]
  show ?case
  proof (cases out)
    case (Emit x)
    with Cons.prems h f show ?thesis by auto
  next
    case NoEmit
    with Cons.prems h have "for_loop s' events = (r, s1, g1)" by simp
    from Cons.IH [OF this] f show ?thesis by simp
  next
    case (Raise e)
    with Cons.prems h f show ?thesis by auto
  qed
qed

lemma while_body_frame:
  assumes "while_body t s = (r, s1, g1)"
  shows "channels_memo s1 = channels_memo s \<and> get_channel_memo s1 = get_channel_memo s
         \<and> get_channel_by_name_memo s1 = get_channel_by_name_memo s
         \<and> api_calls_of m (client s1) = api_calls_of m (client s)"
proof (cases "rtm_read t (client s)")
  case (Events events)
  with assms have "for_loop (s\<lparr>client := client s @ [RtmRead]\<rparr>) events = (r, s1, g1)"
    by (simp add: while_body_def)
  from for_loop_frame [OF this] show ?thesis
    by (simp add: api_calls_of_append api_calls_of_single)
next
  case (ReadRaises e)
  show ?thesis
  proof (cases "(e = BrokenPipeError \<or> e = TimeoutError)
                 \<and> rtm_connect t (client s @ [RtmRead]) False")
    case True
    with assms ReadRaises
    have "s1 = s\<lparr>client := client s @ [RtmRead] @ [RtmConnect False]\<rparr>"
      by (auto simp: while_body_def connect_def Let_def)
    then show ?thesis
      by (simp add: api_calls_of_append api_calls_of_single)
  next
    case False
    with assms ReadRaises
    have "s1 = s\<lparr>client := client s @ [RtmRead] @ [RtmConnect False]\<rparr>
           \<or> s1 = s\<lparr>client := client s @ [RtmRead]\<rparr>"
      by (auto simp: while_body_def connect_def Let_def split: if_splits)
    then show ?thesis
      by (auto simp: api_calls_of_append api_calls_of_single)
  qed
qed

lemma events_iter_next_frame:
  assumes "events_iter_next t s g = (r, s1, g1)"
  shows "channels_memo s1 = channels_memo s \<and> get_channel_memo s1 = get_channel_memo s
         \<and> get_channel_by_name_memo s1 = get_channel_by_name_memo s
         \<and> api_calls_of m (client s1) = api_calls_of m (client s)"
proof (cases g)
  case Created
  show ?thesis
  proof (cases "rtm_connect t (client s) False")
    case True
    with assms Created
    have "while_body t (s\<lparr>client := client s @ [RtmConnect False]\<rparr>) = (r, s1, g1)"
      by (simp add: events_iter_next_def connect_def)
    from while_body_frame [OF this, of m] show ?thesis
      by (simp add: api_calls_of_append api_calls_of_single)
  next
    case False
    with assms Created have "s1 = s\<lparr>client := client s @ [RtmConnect False]\<rparr>"
      by (simp add: events_iter_next_def connect_def)
    then show ?thesis
      by (simp add: api_calls_of_append api_calls_of_single)
  qed
next
  case (InFor events)
  with assms have "for_loop s events = (r, s1, g1)"
    by (simp add: events_iter_next_def)
  from for_loop_frame [OF this] show ?thesis by simp
next
  case AtNone
  with assms have "while_body t s = (r, s1, g1)"
    by (simp add: events_iter_next_def)
  from while_body_frame [OF this] show ?thesis by simp
next
  case Finished
  with assms show ?thesis by (simp add: events_iter_next_def)
qed

lemma get_user_frame:
  assumes "get_user t s i = (r, s1)"
  shows "channels_memo s1 = channels_memo s \<and> get_channel_memo s1 = get_channel_memo s
         \<and> get_channel_by_name_memo s1 = get_channel_by_name_memo s
         \<and> (m \<noteq> ''users.info'' \<longrightarrow> api_calls_of m (client s1) = api_calls_of m (client s))"
  using assms
  by (auto simp: get_user_def call_api_def api_calls_of_append api_calls_of_single
           split: option.splits sum.splits if_splits)

lemma send_message_frame:
  assumes "send_message t s chan msg = (r, s1)"
  shows "channels_memo s1 = channels_memo s \<and> get_channel_memo s1 = get_channel_memo s
         \<and> get_channel_by_name_memo s1 = get_channel_by_name_memo s
         \<and> (m \<noteq> ''chat.postMessage'' \<longrightarrow> api_calls_of m (client s1) = api_calls_of m (client s))"
  using assms
  by (auto simp: send_message_def call_api_def api_calls_of_append api_calls_of_single
           split: sum.splits if_splits)

lemma get_channel_memoized:
  assumes "channels_memo s = Some cs" and "get_channel t s i = (r, s1)"
  shows "channels_memo s1 = Some cs \<and> client s1 = client s"
  using assms
  by (auto simp: get_channel_def channels_hit split: option.splits)

lemma get_channel_by_name_memoized:
  assumes "channels_memo s = Some cs" and "get_channel_by_name t s n = (r, s1)"
  shows "channels_memo s1 = Some cs \<and> client s1 = client s"
  using assms
  by (auto simp: get_channel_by_name_def channels_hit split: option.splits)

lemma perform_memoized:
  assumes "channels_memo s = Some cs" and "m = ''channels.list'' \<or> m = ''groups.list''"
    and "perform t c s g = (a, s1, g1)"
  shows "channels_memo s1 = Some cs
         \<and> api_calls_of m (client s1) = api_calls_of m (client s)
         \<and> (\<forall>r. a = AChannels r \<longrightarrow> r = Inr cs)"
proof (cases c)
  case Channels
  with assms show ?thesis by (auto simp: perform_def channels_hit)
next
  case (GetChannel i)
  obtain r s' where "get_channel t s i = (r, s')" by (cases "get_channel t s i")
  with assms GetChannel get_channel_memoized [OF assms(1) this] show ?thesis
    by (auto simp: perform_def)
next
  case (GetChannelByName n)
  obtain r s' where "get_channel_by_name t s n = (r, s')"
    by (cases "get_channel_by_name t s n")
  with assms GetChannelByName get_channel_by_name_memoized [OF assms(1) this] show ?thesis
    by (auto simp: perform_def)
next
  case (GetUser i)
  obtain r s' where "get_user t s i = (r, s')" by (cases "get_user t s i")
  with assms GetUser get_user_frame [OF this, of m] show ?thesis
    by (auto simp: perform_def)
next
  case (SendMessage chan msg)
  obtain r s' where "send_message t s chan msg = (r, s')"
    by (cases "send_message t s chan msg")
  with assms SendMessage send_message_frame [OF this, of m] show ?thesis
    by (auto simp: perform_def)
next
  case Next
  obtain r s' g' where "events_iter_next t s g = (r, s', g')"
    by (cases "events_iter_next t s g")
  with assms Next events_iter_next_frame [OF this, of m] show ?thesis
    by (auto simp: perform_def)
qed

lemma run_memoized:
  assumes "m = ''channels.list'' \<or> m = ''groups.list''"
  shows "channels_memo s = Some cs \<Longrightarrow> run t ops s g = (answers, s1, g1) \<Longrightarrow>
         channels_memo s1 = Some cs
         \<and> api_calls_of m (client s1) = api_calls_of m (client s)
         \<and> (\<forall>a\<in>set answers. \<forall>r. a = AChannels r \<longrightarrow> r = Inr cs)"
proof (induction ops arbitrary: s g answers s1 g1)
  case Nil
  then show ?case by simp
next
  case (Cons c ops)
  obtain a s' g' where p: "perform t c s g = (a, s', g')"
    by (cases "perform t c s g")
  obtain as s'' g'' where r: "run t ops s' g' = (as, s'', g'')"
    by (cases "run t ops s' g'")
  from Cons.prems(2) p r have eq: "answers = a # as" "s1 = s''" "g1 = g''" by simp_all
  note step = perform_memoized [OF Cons.prems(1) assms p]
  from step have "channels_memo s' = Some cs" by simp
  from Cons.IH [OF this r] step eq show ?case by auto
qed

lemma memo_inv_init: "memo_inv init"
  by (simp add: memo_inv_def init_def)

lemma lru_hit_set: "map_of c k = Some v \<Longrightarrow> set (lru_hit c k v) \<subseteq> set c"
  by (auto simp: lru_hit_def AList.delete_eq dest: map_of_SomeD)

lemma lru_store_set: "set (lru_store c k v) \<subseteq> insert (k, v) (set c)"
proof -
  have "set (take lru_maxsize ((k, v) # c)) \<subseteq> set ((k, v) # c)"
    by (rule set_take_subset)
  then show ?thesis by (simp add: lru_store_def)
qed

lemma channels_inv:
  assumes "memo_inv s" and "channels t s = (r, s1)"
  shows "memo_inv s1"
proof (cases r)
  case (Inl e)
  with assms(2) channels_failure [of t s e s1] assms(1) show ?thesis
    by (auto simp: memo_inv_def)
next
  case (Inr cs)
  with assms(2) have c: "channels t s = (Inr cs, s1)" by simp
  note res = channels_result [OF c]
  from res(4) show ?thesis
  proof
    assume "channels_memo s = None"
    with assms(1) res show ?thesis by (simp add: memo_inv_def)
  next
    assume "s1 = s"
    with assms(1) show ?thesis by simp
  qed
qed

lemma get_channel_inv:
  assumes "memo_inv s" and "get_channel t s i = (r, s1)"
  shows "memo_inv s1"
proof (cases "map_of (get_channel_memo s) i")
  case (Some c)
  with assms(2) have s1: "s1 = s\<lparr>get_channel_memo := lru_hit (get_channel_memo s) i c\<rparr>"
    by (simp add: get_channel_def)
  from lru_hit_set [OF Some] assms(1) show ?thesis
    unfolding s1 memo_inv_def by (auto split: option.splits)
next
  case None
  obtain r' s' where c: "channels t s = (r', s')" by (cases "channels t s")
  note inv' = channels_inv [OF assms(1) c]
  show ?thesis
  proof (cases r')
    case (Inl e)
    with assms(2) None c inv' show ?thesis by (simp add: get_channel_def)
  next
    case (Inr cs)
    with c channels_result(1) have m: "channels_memo s' = Some cs" by blast
    show ?thesis
    proof (cases "find (\<lambda>c. channel_id c = i) cs")
      case None': None
      with assms(2) None c Inr inv' show ?thesis by (simp add: get_channel_def)
    next
      case (Some ch)
      with assms(2) None c Inr
      have s1: "s1 = s'\<lparr>get_channel_memo := lru_store (get_channel_memo s') i ch\<rparr>"
        by (simp add: get_channel_def)
      from Some have "ch \<in> set cs" "channel_id ch = i"
        by (auto simp: find_Some_iff)
      with lru_store_set [of "get_channel_memo s'" i ch] inv' m show ?thesis
        unfolding s1 memo_inv_def by auto
    qed
  qed
qed

lemma get_channel_by_name_inv:
  assumes "memo_inv s" and "get_channel_by_name t s n = (r, s1)"
  shows "memo_inv s1"
proof (cases "map_of (get_channel_by_name_memo s) n")
  case (Some c)
  with assms(2)
  have s1: "s1 = s\<lparr>get_channel_by_name_memo := lru_hit (get_channel_by_name_memo s) n c\<rparr>"
    by (simp add: get_channel_by_name_def)
  from lru_hit_set [OF Some] assms(1) show ?thesis
    unfolding s1 memo_inv_def by (auto split: option.splits)
next
  case None
  obtain r' s' where c: "channels t s = (r', s')" by (cases "channels t s")
  note inv' = channels_inv [OF assms(1) c]
  show ?thesis
  proof (cases r')
    case (Inl e)
    with assms(2) None c inv' show ?thesis by (simp add: get_channel_by_name_def)
  next
    case (Inr cs)
    with c channels_result(1) have m: "channels_memo s' = Some cs" by blast
    show ?thesis
    proof (cases "find (\<lambda>c. channel_name c = n) cs")
      case None': None
      with assms(2) None c Inr inv' show ?thesis by (simp add: get_channel_by_name_def)
    next
      case (Some ch)
      with assms(2) None c Inr
      have s1: "s1 = s'\<lparr>get_channel_by_name_memo :=
                          lru_store (get_channel_by_name_memo s') n ch\<rparr>"
        by (simp add: get_channel_by_name_def)
      from Some have "ch \<in> set cs" "channel_name ch = n"
        by (auto simp: find_Some_iff)
      with lru_store_set [of "get_channel_by_name_memo s'" n ch] inv' m show ?thesis
        unfolding s1 memo_inv_def by auto
    qed
  qed
qed

lemma memo_inv_frame:
  assumes "memo_inv s" and "channels_memo s1 = channels_memo s"
    and "get_channel_memo s1 = get_channel_memo s"
    and "get_channel_by_name_memo s1 = get_channel_by_name_memo s"
  shows "memo_inv s1"
  using assms by (auto simp: memo_inv_def split: option.splits)

lemma perform_inv:
  assumes "memo_inv s" and "perform t c s g = (a, s1, g1)"
  shows "memo_inv s1"
proof (cases c)
  case Channels
  with assms channels_inv [OF assms(1)] show ?thesis
    by (auto simp: perform_def split: prod.splits)
next
  case (GetChannel i)
  with assms get_channel_inv [OF assms(1)] show ?thesis
    by (auto simp: perform_def split: prod.splits)
next
  case (GetChannelByName n)
  with assms get_channel_by_name_inv [OF assms(1)] show ?thesis
    by (auto simp: perform_def split: prod.splits)
next
  case (GetUser i)
  obtain r s' where u: "get_user t s i = (r, s')" by (cases "get_user t s i")
  with assms(2) GetUser have "s1 = s'" by (simp add: perform_def)
  with get_user_frame [OF u, of "''x''"] assms(1) show ?thesis
    by (auto intro: memo_inv_frame)
next
  case (SendMessage chan msg)
  obtain r s' where u: "send_message t s chan msg = (r, s')"
    by (cases "send_message t s chan msg")
  with assms(2) SendMessage have "s1 = s'" by (simp add: perform_def)
  with send_message_frame [OF u, of "''x''"] assms(1) show ?thesis
    by (auto intro: memo_inv_frame)
next
  case Next
  obtain r s' g' where u: "events_iter_next t s g = (r, s', g')"
    by (cases "events_iter_next t s g")
  with assms(2) Next have "s1 = s'" by (simp add: perform_def)
  with events_iter_next_frame [OF u, of "''x''"] assms(1) show ?thesis
    by (auto intro: memo_inv_frame)
qed

lemma run_inv:
  "memo_inv s \<Longrightarrow> run t ops s g = (answers, s1, g1) \<Longrightarrow> memo_inv s1"
proof (induction ops arbitrary: s g answers s1 g1)
  case Nil
  then show ?case by simp
next
  case (Cons c ops)
  obtain a s' g' where p: "perform t c s g = (a, s', g')"
    by (cases "perform t c s g")
  obtain as s'' g'' where r: "run t ops s' g' = (as, s'', g'')"
    by (cases "run t ops s' g'")
  from Cons.prems(2) p r have eq: "s1 = s''" by simp
  from Cons.IH [OF perform_inv [OF Cons.prems(1) p] r] eq show ?case by simp
qed

lemma run_replicate_Channels:
  "channels_memo s = Some cs \<Longrightarrow>
     run t (replicate n Channels) s g = (replicate n (AChannels (Inr cs)), s, g)"
  by (induction n) (simp_all add: perform_def channels_hit)

text \<open>
  C1: when both fetches answer \<^verbatim>\<open>ok\<close> and their collections decode, the first
  \<^verbatim>\<open>channels()\<close> returns the decoded channels followed by the decoded groups. From
  then on any number of \<^verbatim>\<open>channels()\<close> calls, also interleaved with any other calls on
  the object and its generator, return that same list, and the client has seen exactly
  one more \<^verbatim>\<open>channels.list\<close> and one more \<^verbatim>\<open>groups.list\<close> than before the first call.
\<close>

theorem channels_memoized:
  assumes "channels_memo s = None"
    and "load_Response (api_call t (client s) ''channels.list'' exclude_archived) = Inr resp1"
    and "ok resp1"
    and "load_item (api_call t (client s) ''channels.list'' exclude_archived) ''channels''
           (load_List load_Channel) = Inr cs"
    and "load_Response (api_call t (client s @ [ApiCall ''channels.list'' exclude_archived])
           ''groups.list'' exclude_archived) = Inr resp2"
    and "ok resp2"
    and "load_item (api_call t (client s @ [ApiCall ''channels.list'' exclude_archived])
           ''groups.list'' exclude_archived) ''groups'' (load_List load_Channel) = Inr gs"
  shows
    "(let s1 = s\<lparr>client := client s @ [ApiCall ''channels.list'' exclude_archived,
                                         ApiCall ''groups.list'' exclude_archived],
                 channels_memo := Some (cs @ gs)\<rparr>
      in channels t s = (Inr (cs @ gs), s1)
         \<and> (\<forall>n g. run t (replicate n Channels) s1 g =
                     (replicate n (AChannels (Inr (cs @ gs))), s1, g))
         \<and> (\<forall>ops g answers s2 g2.
               run t ops s1 g = (answers, s2, g2) \<longrightarrow>
                 (\<forall>a\<in>set answers. \<forall>r. a = AChannels r \<longrightarrow> r = Inr (cs @ gs))
                 \<and> api_calls_of ''channels.list'' (client s2) =
                     Suc (api_calls_of ''channels.list'' (client s))
                 \<and> api_calls_of ''groups.list'' (client s2) =
                     Suc (api_calls_of ''groups.list'' (client s))))"
proof -
  let ?c1 = "ApiCall ''channels.list'' exclude_archived"
  let ?c2 = "ApiCall ''groups.list'' exclude_archived"
  let ?s1 = "s\<lparr>client := client s @ [?c1, ?c2], channels_memo := Some (cs @ gs)\<rparr>"
  have f1: "fetch_list t s ''channels.list'' ''channels'' =
              (Inr cs, s\<lparr>client := client s @ [?c1]\<rparr>)"
    using assms(2,3,4) by (rule fetch_list_ok)
  have f2: "fetch_list t (s\<lparr>client := client s @ [?c1]\<rparr>) ''groups.list'' ''groups'' =
              (Inr gs, s\<lparr>client := client s @ [?c1]\<rparr>
                         \<lparr>client := client (s\<lparr>client := client s @ [?c1]\<rparr>) @ [?c2]\<rparr>)"
    by (rule fetch_list_ok [where resp = resp2]) (use assms(5,6,7) in simp_all)
  have first: "channels t s = (Inr (cs @ gs), ?s1)"
    using assms(1) by (simp add: channels_def channels_body_def f1 f2)
  have m: "channels_memo ?s1 = Some (cs @ gs)" by simp
  have again: "run t (replicate n Channels) ?s1 g =
                 (replicate n (AChannels (Inr (cs @ gs))), ?s1, g)" for n g
    using m by (rule run_replicate_Channels)
  have later: "(\<forall>a\<in>set answers. \<forall>r. a = AChannels r \<longrightarrow> r = Inr (cs @ gs))
                 \<and> api_calls_of ''channels.list'' (client s2) =
                     Suc (api_calls_of ''channels.list'' (client s))
                 \<and> api_calls_of ''groups.list'' (client s2) =
                     Suc (api_calls_of ''groups.list'' (client s))"
    if r: "run t ops ?s1 g = (answers, s2, g2)" for ops g answers s2 g2
  proof -
    from run_memoized [OF _ m r, of "''channels.list''"]
         run_memoized [OF _ m r, of "''groups.list''"]
    show ?thesis
      by (simp add: api_calls_of_append api_calls_of_single exclude_archived_def)
  qed
  from first again later show ?thesis
    unfolding Let_def by blast
qed

theorem channels_memoized_witness:
  "channels example_client init =
     (Inr [general],
      init\<lparr>client := [ApiCall ''channels.list'' exclude_archived,
                        ApiCall ''groups.list'' exclude_archived],
           channels_memo := Some [general]\<rparr>)
   \<and> run example_client [Channels, Channels, Channels]
        (init\<lparr>client := [ApiCall ''channels.list'' exclude_archived,
                          ApiCall ''groups.list'' exclude_archived],
             channels_memo := Some [general]\<rparr>) Created =
       ([AChannels (Inr [general]), AChannels (Inr [general]), AChannels (Inr [general])],
        init\<lparr>client := [ApiCall ''channels.list'' exclude_archived,
                          ApiCall ''groups.list'' exclude_archived],
             channels_memo := Some [general]\<rparr>, Created)"
proof -
  have n: "channels_memo init = None" by (simp add: init_def)
  have o: "ok \<lparr>ok = True, headers = []\<rparr>" by simp
  note w = channels_memoized [OF n example_lists(1) o example_lists(2)
                                 example_lists(3) o example_lists(4), unfolded Let_def]
  from w have first: "channels example_client init =
     (Inr ([general] @ []),
      init\<lparr>client := client init @ [ApiCall ''channels.list'' exclude_archived,
                        ApiCall ''groups.list'' exclude_archived],
           channels_memo := Some ([general] @ [])\<rparr>)" by blast
  from w have again: "run example_client (replicate 3 Channels)
      (init\<lparr>client := client init @ [ApiCall ''channels.list'' exclude_archived,
                        ApiCall ''groups.list'' exclude_archived],
           channels_memo := Some ([general] @ [])\<rparr>) Created =
      (replicate 3 (AChannels (Inr ([general] @ []))),
       init\<lparr>client := client init @ [ApiCall ''channels.list'' exclude_archived,
                        ApiCall ''groups.list'' exclude_archived],
           channels_memo := Some ([general] @ [])\<rparr>, Created)" by blast
  have c: "client init = []" by (simp add: init_def)
  from first again show ?thesis
    by (simp add: c numeral_3_eq_3)
qed

text \<open>
  C9: in any state the object can reach, once \<^verbatim>\<open>channels()\<close> yields a list, looking up
  an id or a name that no channel of the list has raises \<^verbatim>\<open>KeyError\<close> (the spec's
  NotFoundError). The lookup leaves the object in the state \<^verbatim>\<open>channels()\<close> left it in,
  which is the state before the lookup when the list was cached already, and repeating
  the lookup changes nothing, so the client is not called again.
\<close>

theorem lookup_absent_raises:
  assumes "run t ops init Created = (answers, s, g)"
    and "channels t s = (Inr cs, s1)"
  shows
    "(i \<notin> channel_id ` set cs \<longrightarrow>
        get_channel t s i = (Inl (KeyError NoArgs), s1)
        \<and> get_channel t s1 i = (Inl (KeyError NoArgs), s1))
     \<and> (n \<notin> channel_name ` set cs \<longrightarrow>
        get_channel_by_name t s n = (Inl (KeyError NoArgs), s1)
        \<and> get_channel_by_name t s1 n = (Inl (KeyError NoArgs), s1))
     \<and> channels t s1 = (Inr cs, s1)
     \<and> (channels_memo s \<noteq> None \<longrightarrow> s1 = s)"
proof -
  have inv: "memo_inv s"
    using memo_inv_init assms(1) by (rule run_inv)
  have inv1: "memo_inv s1"
    using inv assms(2) by (rule channels_inv)
  note res = channels_result [OF assms(2)]
  have hit: "channels t s1 = (Inr cs, s1)"
    using res(1) by (rule channels_hit)
  have miss_id: "map_of (get_channel_memo s1) i = None" if "i \<notin> channel_id ` set cs"
  proof (rule ccontr)
    assume "map_of (get_channel_memo s1) i \<noteq> None"
    then obtain c where "(i, c) \<in> set (get_channel_memo s1)"
      by (auto dest: map_of_SomeD)
    with inv1 res(1) have "c \<in> set cs" "channel_id c = i"
      by (auto simp: memo_inv_def)
    with that show False by auto
  qed
  have miss_name: "map_of (get_channel_by_name_memo s1) n = None"
    if "n \<notin> channel_name ` set cs"
  proof (rule ccontr)
    assume "map_of (get_channel_by_name_memo s1) n \<noteq> None"
    then obtain c where "(n, c) \<in> set (get_channel_by_name_memo s1)"
      by (auto dest: map_of_SomeD)
    with inv1 res(1) have "c \<in> set cs" "channel_name c = n"
      by (auto simp: memo_inv_def)
    with that show False by auto
  qed
  have by_id: "get_channel t s i = (Inl (KeyError NoArgs), s1)
               \<and> get_channel t s1 i = (Inl (KeyError NoArgs), s1)"
    if a: "i \<notin> channel_id ` set cs"
  proof -
    from a have nf: "find (\<lambda>c. channel_id c = i) cs = None"
      by (auto simp: find_None_iff)
    from miss_id [OF a] res(2) have "map_of (get_channel_memo s) i = None" by simp
    with miss_id [OF a] nf assms(2) hit show ?thesis
      by (simp add: get_channel_def)
  qed
  have by_name: "get_channel_by_name t s n = (Inl (KeyError NoArgs), s1)
               \<and> get_channel_by_name t s1 n = (Inl (KeyError NoArgs), s1)"
    if a: "n \<notin> channel_name ` set cs"
  proof -
    from a have nf: "find (\<lambda>c. channel_name c = n) cs = None"
      by (auto simp: find_None_iff)
    from miss_name [OF a] res(3) have "map_of (get_channel_by_name_memo s) n = None" by simp
    with miss_name [OF a] nf assms(2) hit show ?thesis
      by (simp add: get_channel_by_name_def)
  qed
  from by_id by_name hit res(4) show ?thesis by auto
qed

theorem lookup_absent_raises_witness:
  "get_channel example_client init ''C9'' =
     (Inl (KeyError NoArgs),
      init\<lparr>client := [ApiCall ''channels.list'' exclude_archived,
                        ApiCall ''groups.list'' exclude_archived],
           channels_memo := Some [general]\<rparr>)
   \<and> get_channel example_client
       (init\<lparr>client := [ApiCall ''channels.list'' exclude_archived,
                         ApiCall ''groups.list'' exclude_archived],
            channels_memo := Some [general]\<rparr>) ''C9'' =
     (Inl (KeyError NoArgs),
      init\<lparr>client := [ApiCall ''channels.list'' exclude_archived,
                        ApiCall ''groups.list'' exclude_archived],
           channels_memo := Some [general]\<rparr>)
   \<and> get_channel_by_name example_client init ''random'' =
     (Inl (KeyError NoArgs),
      init\<lparr>client := [ApiCall ''channels.list'' exclude_archived,
                        ApiCall ''groups.list'' exclude_archived],
           channels_memo := Some [general]\<rparr>)"
proof -
  let ?s1 = "init\<lparr>client := [ApiCall ''channels.list'' exclude_archived,
                        ApiCall ''groups.list'' exclude_archived],
           channels_memo := Some [general]\<rparr>"
  have r: "run example_client [] init Created = ([], init, Created)" by simp
  have c: "channels example_client init = (Inr [general], ?s1)"
    by (simp add: channels_def channels_body_def fetch_list_def call_api_def example_lists
          init_def)
  have i: "''C9'' \<notin> channel_id ` set [general]" by (simp add: general_def)
  have n: "''random'' \<notin> channel_name ` set [general]"
    by (simp add: general_def channel_name_def)
  from lookup_absent_raises [OF r c, of "''C9''" "''random''"] i n
  show ?thesis by blast
qed

text \<open>
  C10: when the first or the second fetch of \<^verbatim>\<open>channels()\<close> answers \<^verbatim>\<open>ok = false\<close>,
  \<^verbatim>\<open>ResponseException\<close> is raised and the object is as before except for the calls the
  client has seen: nothing is cached, no part of the result is kept. The next
  \<^verbatim>\<open>channels()\<close> starts again with \<^verbatim>\<open>channels.list\<close>.
\<close>

theorem channels_failure_not_memoized:
  assumes "channels_memo s = None"
  shows
    "(\<forall>resp. load_Response (api_call t (client s) ''channels.list'' exclude_archived) = Inr resp
          \<and> \<not> ok resp \<longrightarrow>
        channels t s = (Inl (ResponseException resp),
                        s\<lparr>client := client s @ [ApiCall ''channels.list'' exclude_archived]\<rparr>))
     \<and> (\<forall>cs resp.
          fetch_list t s ''channels.list'' ''channels'' =
            (Inr cs, s\<lparr>client := client s @ [ApiCall ''channels.list'' exclude_archived]\<rparr>)
          \<and> load_Response (api_call t (client s @ [ApiCall ''channels.list'' exclude_archived])
                ''groups.list'' exclude_archived) = Inr resp
          \<and> \<not> ok resp \<longrightarrow>
        channels t s = (Inl (ResponseException resp),
                        s\<lparr>client := client s @ [ApiCall ''channels.list'' exclude_archived,
                                                ApiCall ''groups.list'' exclude_archived]\<rparr>))
     \<and> (\<forall>e s1. channels t s = (Inl e, s1) \<longrightarrow>
          s1 = s\<lparr>client := client s1\<rparr>
          \<and> channels_memo s1 = None
          \<and> (\<exists>rest. client (snd (channels t s1)) =
                      client s1 @ ApiCall ''channels.list'' exclude_archived # rest))"
proof -
  let ?c1 = "ApiCall ''channels.list'' exclude_archived"
  let ?c2 = "ApiCall ''groups.list'' exclude_archived"
  have a: "channels t s = (Inl (ResponseException resp), s\<lparr>client := client s @ [?c1]\<rparr>)"
    if "load_Response (api_call t (client s) ''channels.list'' exclude_archived) = Inr resp"
       "\<not> ok resp" for resp
    using assms fetch_list_not_ok [OF that, of "''channels''"]
    by (simp add: channels_def channels_body_def)
  have b: "channels t s = (Inl (ResponseException resp), s\<lparr>client := client s @ [?c1, ?c2]\<rparr>)"
    if f1: "fetch_list t s ''channels.list'' ''channels'' =
              (Inr cs, s\<lparr>client := client s @ [?c1]\<rparr>)"
      and r: "load_Response (api_call t (client s @ [?c1]) ''groups.list'' exclude_archived)
                = Inr resp"
      and n: "\<not> ok resp" for cs resp
  proof -
    have "fetch_list t (s\<lparr>client := client s @ [?c1]\<rparr>) ''groups.list'' ''groups'' =
            (Inl (ResponseException resp),
             s\<lparr>client := client s @ [?c1]\<rparr>
               \<lparr>client := client (s\<lparr>client := client s @ [?c1]\<rparr>) @ [?c2]\<rparr>)"
      by (rule fetch_list_not_ok) (use r n in simp_all)
    with assms f1 show ?thesis
      by (simp add: channels_def channels_body_def)
  qed
  have c: "s1 = s\<lparr>client := client s1\<rparr> \<and> channels_memo s1 = None
           \<and> (\<exists>rest. client (snd (channels t s1)) = client s1 @ ?c1 # rest)"
    if f: "channels t s = (Inl e, s1)" for e s1
  proof -
    from channels_failure(2) [OF f] obtain rest
      where s1: "s1 = s\<lparr>client := client s @ ?c1 # rest\<rparr>" by blast
    with assms have n: "channels_memo s1 = None" by simp
    obtain rest' where "snd (channels_body t s1) = s1\<lparr>client := client s1 @ ?c1 # rest'\<rparr>"
      using channels_body_state by blast
    with n have "client (snd (channels t s1)) = client s1 @ ?c1 # rest'"
      by (auto simp: channels_def split: prod.splits sum.splits)
    with s1 n show ?thesis by auto
  qed
  from a b c show ?thesis by blast
qed

theorem channels_failure_not_memoized_witness:
  "channels refusing_client init =
     (Inl (ResponseException \<lparr>ok = False, headers = []\<rparr>),
      init\<lparr>client := client init @ [ApiCall ''channels.list'' exclude_archived]\<rparr>)"
proof -
  have n: "channels_memo init = None" by (simp add: init_def)
  have r: "load_Response (api_call refusing_client (client init) ''channels.list''
             exclude_archived) = Inr \<lparr>ok = False, headers = []\<rparr>"
    by (simp add: refusing_client_def answer_not_ok_def load_defs)
  have o: "\<not> ok \<lparr>ok = False, headers = []\<rparr>" by simp
  from channels_failure_not_memoized [OF n, of refusing_client] r o
  show ?thesis by blast
qed

end
